theory Spec2Isabelle
  imports Complex_Main "HOL-Library.Multiset" "HOL-Library.Sublist"
begin

section \<open>Python values, errors and containers\<close>

text \<open>
  The three methods of \<^verbatim>\<open>Butcher\<close> in \<^verbatim>\<open>src/modules/butcher.py\<close> that carry logic are
  \<^verbatim>\<open>get_coordinates\<close> (the Decoder), \<^verbatim>\<open>remove_overlapping_items\<close> (the Suppressor) and
  \<^verbatim>\<open>extract_image_segments\<close> (the Extractor). They exchange Python tuples whose shape
  is fixed only at run time, so the per-item data is modelled as a small universe of
  Python values. The fields of a detection row and the confidences are finite floating
  point numbers, each known exactly as a rational; \<^verbatim>\<open>LibraryError\<close> stands for
  \<^verbatim>\<open>cv2.error\<close>.
\<close>

datatype error = ValueError | TypeError | IndexError | KeyError | OverflowError | LibraryError

datatype pyval = PInt int | PFloat rat | PTuple "pyval list"

text \<open>\<^verbatim>\<open>resources/ids.py\<close>: a plain \<^verbatim>\<open>Enum\<close>, whose members compare equal only to themselves.\<close>

datatype IDs = ARMS | BODY | CHEST | EYES | FEET | HANDS | HEAD | LEGS | MOUTH | NOSE | PERSON

fun ids_value :: "IDs \<Rightarrow> int" where
  "ids_value ARMS = 0"
| "ids_value BODY = 1"
| "ids_value CHEST = 2"
| "ids_value EYES = 3"
| "ids_value FEET = 4"
| "ids_value HANDS = 5"
| "ids_value HEAD = 6"
| "ids_value LEGS = 7"
| "ids_value MOUTH = 8"
| "ids_value NOSE = 9"
| "ids_value PERSON = 14"

text \<open>
  \<^verbatim>\<open>DataPack = Dict[K, List[V]]\<close>. A Python dict keeps insertion order, so it is an
  association list; \<^verbatim>\<open>d[k]\<close> raises KeyError on an absent key, \<^verbatim>\<open>d[k] = v\<close> overwrites
  in place or appends a new entry.
\<close>

type_synonym ('k, 'v) datapack = "('k \<times> 'v list) list"

fun dict_get :: "('k \<times> 'v) list \<Rightarrow> 'k \<Rightarrow> error + 'v" where
  "dict_get [] k = Inl KeyError"
| "dict_get ((k', v) # d) k = (if k' = k then Inr v else dict_get d k)"

fun dict_set :: "'k \<Rightarrow> 'v \<Rightarrow> ('k \<times> 'v) list \<Rightarrow> ('k \<times> 'v) list" where
  "dict_set k v [] = [(k, v)]"
| "dict_set k v ((k', v') # d) = (if k' = k then (k, v) # d else (k', v') # dict_set k v d)"

fun dict_has :: "('k \<times> 'v) list \<Rightarrow> 'k \<Rightarrow> bool" where
  "dict_has [] k = False"
| "dict_has ((k', v) # d) k = (k' = k \<or> dict_has d k)"

text \<open>\<^verbatim>\<open>d[k].append(x)\<close>: KeyError when the key is absent.\<close>

definition dict_append :: "'k \<Rightarrow> 'v \<Rightarrow> ('k, 'v) datapack \<Rightarrow> error + ('k, 'v) datapack" where
  "dict_append k x d =
     (case dict_get d k of Inl e \<Rightarrow> Inl e | Inr xs \<Rightarrow> Inr (dict_set k (xs @ [x]) d))"

text \<open>
  \<^verbatim>\<open>v[i]\<close> on a Python value: a tuple is indexed (negative indices count from the end,
  IndexError out of range); an int or a float is not subscriptable.
\<close>

definition tuple_item :: "pyval list \<Rightarrow> int \<Rightarrow> error + pyval" where
  "tuple_item xs i =
     (if 0 \<le> i \<and> i < int (length xs) then Inr (xs ! nat i)
      else if i < 0 \<and> - int (length xs) \<le> i then Inr (xs ! nat (i + int (length xs)))
      else Inl IndexError)"

fun subscript :: "pyval \<Rightarrow> int \<Rightarrow> error + pyval" where
  "subscript (PTuple xs) i = tuple_item xs i"
| "subscript (PInt _) i = Inl TypeError"
| "subscript (PFloat _) i = Inl TypeError"

text \<open>A list comprehension whose element expression may raise stops at the first error.\<close>

fun comprehension :: "('a \<Rightarrow> error + 'b) \<Rightarrow> 'a list \<Rightarrow> error + 'b list" where
  "comprehension f [] = Inr []"
| "comprehension f (x # xs) =
     (case f x of Inl e \<Rightarrow> Inl e
      | Inr y \<Rightarrow> (case comprehension f xs of Inl e \<Rightarrow> Inl e | Inr ys \<Rightarrow> Inr (y # ys)))"

section \<open>The Decoder: \<^verbatim>\<open>get_coordinates\<close>\<close>

text \<open>
  The \<^verbatim>\<open>keys\<close> argument is \<^verbatim>\<open>Union[Any, List[Any]]\<close>: one key or a list of keys. A key
  is a Python int or a member of \<^verbatim>\<open>IDs\<close>. \<^verbatim>\<open>single_key in keys\<close> compares the argmax
  index with each key by \<^verbatim>\<open>==\<close>: it equals an int of the same value and no enum member.
\<close>

datatype key = KInt int | KEnum IDs

datatype keys_arg = Single key | Many "key list"

fun key_eq :: "nat \<Rightarrow> key \<Rightarrow> bool" where
  "key_eq n (KInt i) = (int n = i)"
| "key_eq n (KEnum _) = False"

definition key_in :: "nat \<Rightarrow> key list \<Rightarrow> bool" where
  "key_in n ks = list_ex (key_eq n) ks"

text \<open>Lines 138-139: \<^verbatim>\<open>if not isinstance(keys, list): keys = [keys]\<close>.\<close>

fun normalize_keys :: "keys_arg \<Rightarrow> key list" where
  "normalize_keys (Single k) = [k]"
| "normalize_keys (Many ks) = ks"

text \<open>
  \<^verbatim>\<open>np.argmax\<close>: a left-to-right scan that moves to a new index only on a strictly
  greater value; ValueError on an empty sequence.
\<close>

fun argmax_scan :: "rat \<Rightarrow> nat \<Rightarrow> nat \<Rightarrow> rat list \<Rightarrow> nat" where
  "argmax_scan best bi i [] = bi"
| "argmax_scan best bi i (v # vs) =
     (if best < v then argmax_scan v i (Suc i) vs else argmax_scan best bi (Suc i) vs)"

definition argmax :: "rat list \<Rightarrow> error + nat" where
  "argmax scores = (case scores of [] \<Rightarrow> Inl ValueError | v # vs \<Rightarrow> Inr (argmax_scan v 0 1 vs))"

text \<open>
  The results of floating point arithmetic: a finite value, an infinity or NaN.
  NumPy rounds after every operation, to a precision that depends on the types of the
  operands, so the four operations of lines 151-157 are a parameter of the Decoder:
  each receives the exact values of its operands and returns the rounded result.
\<close>

datatype pyfloat = Finite rat | PosInf | NegInf | NaN

record float_ops =
  fmul :: "pyfloat \<Rightarrow> pyfloat \<Rightarrow> pyfloat"
  fdiv :: "pyfloat \<Rightarrow> pyfloat \<Rightarrow> pyfloat"
  fsub :: "pyfloat \<Rightarrow> pyfloat \<Rightarrow> pyfloat"
  fadd :: "pyfloat \<Rightarrow> pyfloat \<Rightarrow> pyfloat"

text \<open>
  \<^verbatim>\<open>int(x)\<close> on a float truncates a finite value toward zero, raises OverflowError on an
  infinity and ValueError on NaN.
\<close>

fun py_int :: "pyfloat \<Rightarrow> error + int" where
  "py_int (Finite q) = Inr (if 0 \<le> q then \<lfloor>q\<rfloor> else \<lceil>q\<rceil>)"
| "py_int PosInf = Inl OverflowError"
| "py_int NegInf = Inl OverflowError"
| "py_int NaN = Inl ValueError"

text \<open>Line 143: \<^verbatim>\<open>scores = detection[5:]\<close>.\<close>

definition scores_of :: "rat list \<Rightarrow> rat list" where
  "scores_of detection = drop 5 detection"

text \<open>
  Lines 151-159, the tuple built for a retained row: the four floating point values
  \<open>w\<close>, \<open>h\<close>, \<open>x\<close>, \<open>y\<close>, then \<^verbatim>\<open>int(x), int(x + w), int(y), int(y + h)\<close> from left to right
  and the score. It is reached only after \<^verbatim>\<open>np.argmax\<close> succeeded, that is with at least
  six fields in the row, so the reads of fields 0 to 3 are in range.
\<close>

definition candidate_data :: "float_ops \<Rightarrow> rat \<Rightarrow> rat \<Rightarrow> rat list \<Rightarrow> rat \<Rightarrow> error + pyval" where
  "candidate_data ops img_height img_width detection score =
     (let w = fmul ops (Finite (detection ! 2)) (Finite img_width);
          h = fmul ops (Finite (detection ! 3)) (Finite img_height);
          x = fsub ops (fmul ops (Finite (detection ! 0)) (Finite img_width))
                       (fdiv ops w (Finite 2));
          y = fsub ops (fmul ops (Finite (detection ! 1)) (Finite img_height))
                       (fdiv ops h (Finite 2))
      in case py_int x of Inl e \<Rightarrow> Inl e | Inr x0 \<Rightarrow>
        (case py_int (fadd ops x w) of Inl e \<Rightarrow> Inl e | Inr x1 \<Rightarrow>
        (case py_int y of Inl e \<Rightarrow> Inl e | Inr y0 \<Rightarrow>
        (case py_int (fadd ops y h) of Inl e \<Rightarrow> Inl e | Inr y1 \<Rightarrow>
           Inr (PTuple [PInt x0, PInt x1, PInt y0, PInt y1, PFloat score])))))"

text \<open>Lines 143-160, the body of the inner loop, on the dict \<^verbatim>\<open>fridge\<close>.\<close>

definition decode_detection ::
  "float_ops \<Rightarrow> rat \<Rightarrow> rat \<Rightarrow> key list \<Rightarrow> rat list \<Rightarrow> (nat, pyval) datapack \<Rightarrow>
   error + (nat, pyval) datapack" where
  "decode_detection ops img_height img_width keys detection fridge =
     (let scores = scores_of detection in
      case argmax scores of
        Inl e \<Rightarrow> Inl e
      | Inr single_key \<Rightarrow>
          let score = scores ! single_key in
          if key_in single_key keys then
            let fridge' = (if \<not> dict_has fridge single_key
                           then dict_set single_key [] fridge else fridge)
            in case candidate_data ops img_height img_width detection score of
                 Inl e \<Rightarrow> Inl e
               | Inr data \<Rightarrow> dict_append single_key data fridge'
          else Inr fridge)"

text \<open>Lines 141-142, the two nested loops.\<close>

fun scan_detections ::
  "float_ops \<Rightarrow> rat \<Rightarrow> rat \<Rightarrow> key list \<Rightarrow> rat list list \<Rightarrow> (nat, pyval) datapack \<Rightarrow>
   error + (nat, pyval) datapack" where
  "scan_detections ops img_height img_width keys [] fridge = Inr fridge"
| "scan_detections ops img_height img_width keys (detection # detections) fridge =
     (case decode_detection ops img_height img_width keys detection fridge of
        Inl e \<Rightarrow> Inl e
      | Inr fridge' \<Rightarrow> scan_detections ops img_height img_width keys detections fridge')"

fun scan_outputs ::
  "float_ops \<Rightarrow> rat \<Rightarrow> rat \<Rightarrow> key list \<Rightarrow> rat list list list \<Rightarrow> (nat, pyval) datapack \<Rightarrow>
   error + (nat, pyval) datapack" where
  "scan_outputs ops img_height img_width keys [] fridge = Inr fridge"
| "scan_outputs ops img_height img_width keys (detections # output_data) fridge =
     (case scan_detections ops img_height img_width keys detections fridge of
        Inl e \<Rightarrow> Inl e
      | Inr fridge' \<Rightarrow> scan_outputs ops img_height img_width keys output_data fridge')"

text \<open>
  Lines 138-162, everything after the assignment of the image dimensions, with the two
  dimensions as parameters.
\<close>

definition decode_from ::
  "float_ops \<Rightarrow> rat \<Rightarrow> rat \<Rightarrow> rat list list list \<Rightarrow> keys_arg \<Rightarrow> error + (nat, pyval) datapack" where
  "decode_from ops img_height img_width output_data keys =
     scan_outputs ops img_height img_width (normalize_keys keys) output_data []"

text \<open>
  Line 136, \<^verbatim>\<open>img_height, img_width = ()\<close>: unpacking a tuple into two names raises
  ValueError unless the tuple has exactly two elements.
\<close>

definition unpack2 :: "'a list \<Rightarrow> error + ('a \<times> 'a)" where
  "unpack2 t = (case t of [a, b] \<Rightarrow> Inr (a, b) | _ \<Rightarrow> Inl ValueError)"

definition get_coordinates ::
  "float_ops \<Rightarrow> rat list list list \<Rightarrow> keys_arg \<Rightarrow> error + (nat, pyval) datapack" where
  "get_coordinates ops output_data keys =
     (case unpack2 ([] :: rat list) of
        Inl e \<Rightarrow> Inl e
      | Inr (img_height, img_width) \<Rightarrow> decode_from ops img_height img_width output_data keys)"

text \<open>
  Arithmetic without rounding error, for the concrete evaluations: floating point
  arithmetic agrees with it wherever the exact result of every operation is a float,
  as it is for dyadic fields and dimensions of moderate size.
\<close>

fun exactly :: "(rat \<Rightarrow> rat \<Rightarrow> rat) \<Rightarrow> pyfloat \<Rightarrow> pyfloat \<Rightarrow> pyfloat" where
  "exactly f (Finite a) (Finite b) = Finite (f a b)"
| "exactly f _ _ = NaN"

definition exact_ops :: float_ops where
  "exact_ops = \<lparr>fmul = exactly (\<lambda>a b. a * b),
                fdiv = (\<lambda>a b. if b = Finite 0 then NaN else exactly (\<lambda>a b. a / b) a b),
                fsub = exactly (\<lambda>a b. a - b),
                fadd = exactly (\<lambda>a b. a + b)\<rparr>"

section \<open>The Suppressor: \<^verbatim>\<open>remove_overlapping_items\<close>\<close>

text \<open>
  \<^verbatim>\<open>cv2.dnn.NMSBoxes\<close> belongs to the OpenCV library, so the Suppressor takes the routine
  as a parameter: it receives the two lists built by the comprehensions and the two
  thresholds, and returns the kept indices or raises.
\<close>

type_synonym nms_routine = "pyval list \<Rightarrow> pyval list \<Rightarrow> rat \<Rightarrow> rat \<Rightarrow> error + nat list"

text \<open>\<^verbatim>\<open>all_data[x]\<close> for an index returned by the routine.\<close>

definition list_at :: "'a list \<Rightarrow> nat \<Rightarrow> error + 'a" where
  "list_at xs i = (if i < length xs then Inr (xs ! i) else Inl IndexError)"

text \<open>Lines 101-111, the body of the loop for one key \<^verbatim>\<open>row\<close>.\<close>

definition suppress_row ::
  "nms_routine \<Rightarrow> rat \<Rightarrow> rat \<Rightarrow> 'k \<Rightarrow> ('k, pyval) datapack \<Rightarrow> error + ('k, pyval) datapack" where
  "suppress_row nms nms_threshold score_threshold row data_pack =
     (case dict_get data_pack row of
        Inl e \<Rightarrow> Inl e
      | Inr all_data \<Rightarrow>
         (case comprehension (\<lambda>x. subscript x 0) all_data of
            Inl e \<Rightarrow> Inl e
          | Inr coordinates \<Rightarrow>
             (case comprehension (\<lambda>x. subscript x 1) all_data of
                Inl e \<Rightarrow> Inl e
              | Inr scores \<Rightarrow>
                 (case nms coordinates scores score_threshold nms_threshold of
                    Inl e \<Rightarrow> Inl e
                  | Inr indexes \<Rightarrow>
                     (case comprehension (list_at all_data) indexes of
                        Inl e \<Rightarrow> Inl e
                      | Inr kept \<Rightarrow> Inr (dict_set row kept data_pack))))))"

text \<open>Line 100, \<^verbatim>\<open>for row in data_pack\<close>: the keys in insertion order.\<close>

fun suppress_rows ::
  "nms_routine \<Rightarrow> rat \<Rightarrow> rat \<Rightarrow> 'k list \<Rightarrow> ('k, pyval) datapack \<Rightarrow> error + ('k, pyval) datapack" where
  "suppress_rows nms nms_threshold score_threshold [] data_pack = Inr data_pack"
| "suppress_rows nms nms_threshold score_threshold (row # rows) data_pack =
     (case suppress_row nms nms_threshold score_threshold row data_pack of
        Inl e \<Rightarrow> Inl e
      | Inr data_pack' \<Rightarrow> suppress_rows nms nms_threshold score_threshold rows data_pack')"

definition remove_overlapping_items ::
  "nms_routine \<Rightarrow> ('k, pyval) datapack \<Rightarrow> rat \<Rightarrow> rat \<Rightarrow> error + ('k, pyval) datapack" where
  "remove_overlapping_items nms data_pack nms_threshold score_threshold =
     suppress_rows nms nms_threshold score_threshold (map fst data_pack) data_pack"

section \<open>The Extractor: \<^verbatim>\<open>extract_image_segments\<close>\<close>

text \<open>
  An image is a list of rows of pixels. \<^verbatim>\<open>image[a:b, c:d]\<close> slices the rows, then each
  row, with the slice rule of Python and NumPy: a negative bound has the length added
  to it, and the result is cut to the range from 0 to the length. A bound that is not an
  int raises TypeError.
\<close>

type_synonym 'px image = "'px list list"

definition slice_bound :: "nat \<Rightarrow> int \<Rightarrow> nat" where
  "slice_bound n i = (if i < 0 then nat (max (i + int n) 0) else min (nat i) n)"

definition py_slice :: "int \<Rightarrow> int \<Rightarrow> 'a list \<Rightarrow> 'a list" where
  "py_slice a b xs =
     (let start = slice_bound (length xs) a; stop = slice_bound (length xs) b
      in take (stop - start) (drop start xs))"

definition crop :: "'px image \<Rightarrow> int \<Rightarrow> int \<Rightarrow> int \<Rightarrow> int \<Rightarrow> 'px image" where
  "crop img y0 y1 x0 x1 = map (py_slice x0 x1) (py_slice y0 y1 img)"

fun as_index :: "pyval \<Rightarrow> error + int" where
  "as_index (PInt i) = Inr i"
| "as_index (PFloat _) = Inl TypeError"
| "as_index (PTuple _) = Inl TypeError"

text \<open>
  Lines 190-199 for one item: \<^verbatim>\<open>zone = data[0]\<close>, the four reads of \<^verbatim>\<open>zone\<close> in the order
  of the source, the slice, and the colour conversion \<^verbatim>\<open>cv2.cvtColor\<close>, a routine of
  OpenCV taken as the parameter \<open>cvt\<close>.
\<close>

definition segment_of ::
  "('px image \<Rightarrow> error + 'px image) \<Rightarrow> 'px image \<Rightarrow> pyval \<Rightarrow> error + 'px image" where
  "segment_of cvt img data =
     (case subscript data 0 of
        Inl e \<Rightarrow> Inl e
      | Inr zone \<Rightarrow>
         (case subscript zone 2 of Inl e \<Rightarrow> Inl e | Inr z2 \<Rightarrow>
         (case subscript zone 3 of Inl e \<Rightarrow> Inl e | Inr z3 \<Rightarrow>
         (case subscript zone 0 of Inl e \<Rightarrow> Inl e | Inr z0 \<Rightarrow>
         (case subscript zone 1 of Inl e \<Rightarrow> Inl e | Inr z1 \<Rightarrow>
         (case as_index z2 of Inl e \<Rightarrow> Inl e | Inr y0 \<Rightarrow>
         (case as_index z3 of Inl e \<Rightarrow> Inl e | Inr y1 \<Rightarrow>
         (case as_index z0 of Inl e \<Rightarrow> Inl e | Inr x0 \<Rightarrow>
         (case as_index z1 of Inl e \<Rightarrow> Inl e | Inr x1 \<Rightarrow>
            cvt (crop img y0 y1 x0 x1))))))))))"

text \<open>Lines 189-199, the inner loop, appending to \<^verbatim>\<open>new_data_pack[key]\<close>.\<close>

fun extract_items ::
  "('px image \<Rightarrow> error + 'px image) \<Rightarrow> 'px image \<Rightarrow> 'k \<Rightarrow> pyval list \<Rightarrow>
   ('k, 'px image) datapack \<Rightarrow> error + ('k, 'px image) datapack" where
  "extract_items cvt img key [] new_data_pack = Inr new_data_pack"
| "extract_items cvt img key (data # rest) new_data_pack =
     (case segment_of cvt img data of
        Inl e \<Rightarrow> Inl e
      | Inr segment \<Rightarrow>
         (case dict_append key segment new_data_pack of
            Inl e \<Rightarrow> Inl e
          | Inr new_data_pack' \<Rightarrow> extract_items cvt img key rest new_data_pack'))"

text \<open>Lines 185-199, the outer loop over the keys of \<^verbatim>\<open>data_pack\<close>.\<close>

fun extract_keys ::
  "('px image \<Rightarrow> error + 'px image) \<Rightarrow> 'px image \<Rightarrow> 'k list \<Rightarrow> ('k, pyval) datapack \<Rightarrow>
   ('k, 'px image) datapack \<Rightarrow> error + ('k, 'px image) datapack" where
  "extract_keys cvt img [] data_pack new_data_pack = Inr new_data_pack"
| "extract_keys cvt img (key # keys) data_pack new_data_pack =
     (let new_data_pack' = (if \<not> dict_has new_data_pack key
                            then dict_set key [] new_data_pack else new_data_pack)
      in case dict_get data_pack key of
           Inl e \<Rightarrow> Inl e
         | Inr items \<Rightarrow>
            (case extract_items cvt img key items new_data_pack' of
               Inl e \<Rightarrow> Inl e
             | Inr new_data_pack'' \<Rightarrow> extract_keys cvt img keys data_pack new_data_pack''))"

definition extract_image_segments ::
  "('px image \<Rightarrow> error + 'px image) \<Rightarrow> 'px image \<Rightarrow> ('k, pyval) datapack \<Rightarrow>
   error + ('k, 'px image) datapack" where
  "extract_image_segments cvt img data_pack =
     extract_keys cvt img (map fst data_pack) data_pack []"

text \<open>
  \<^verbatim>\<open>cv2.cvtColor\<close> with \<^verbatim>\<open>cv2.COLOR_BGR2RGB\<close>, the instance of the parameter \<open>cvt\<close> for
  the concrete evaluations: it raises \<^verbatim>\<open>cv2.error\<close> on a source without pixels (its
  assertion that the source is not empty), and otherwise exchanges the first and the
  third channel of every pixel.
\<close>

definition bgr2rgb :: "(nat \<times> nat \<times> nat) image \<Rightarrow> error + (nat \<times> nat \<times> nat) image" where
  "bgr2rgb src =
     (if concat src = [] then Inl LibraryError
      else Inr (map (map (\<lambda>(b, g, r). (r, g, b))) src))"

section \<open>The shape the annotations promise\<close>

text \<open>
  The annotations of all three methods give the items as \<^verbatim>\<open>Tuple[ZoneInt, float]\<close>: a
  pair of a zone of four ints and a confidence. The Extractor reads the zone as
  (x-min, x-max, y-min, y-max). A Detection set in this shape is a typed association
  list, embedded into the Python values.
\<close>

type_synonym box = "int \<times> int \<times> int \<times> int"

type_synonym candidate = "box \<times> rat"

fun box_val :: "box \<Rightarrow> pyval" where
  "box_val (x0, x1, y0, y1) = PTuple [PInt x0, PInt x1, PInt y0, PInt y1]"

fun cand_val :: "candidate \<Rightarrow> pyval" where
  "cand_val (b, c) = PTuple [box_val b, PFloat c]"

definition embed :: "('k \<times> candidate list) list \<Rightarrow> ('k, pyval) datapack" where
  "embed ds = map (\<lambda>(k, cs). (k, map cand_val cs)) ds"

section \<open>The suppression routine of the specification\<close>

text \<open>
  Modelled from the spec: \<^verbatim>\<open>cv2.dnn.NMSBoxes\<close> is not part of the repository; section 4.2
  of the specification restates it as a greedy algorithm, per category: discard the
  candidates with confidence below the score threshold, sort the rest by confidence
  descending and stably, then repeatedly keep the first remaining candidate and remove
  every other remaining one whose intersection-over-union with it exceeds the overlap
  threshold. Intersection-over-union is intersection area over area(A) + area(B) minus
  intersection area, and 0 when a box has zero area.
\<close>

fun box_area :: "box \<Rightarrow> int" where
  "box_area (x0, x1, y0, y1) = (x1 - x0) * (y1 - y0)"

fun inter_area :: "box \<Rightarrow> box \<Rightarrow> int" where
  "inter_area (x0, x1, y0, y1) (u0, u1, v0, v1) =
     max 0 (min x1 u1 - max x0 u0) * max 0 (min y1 v1 - max y0 v0)"

definition iou :: "box \<Rightarrow> box \<Rightarrow> rat" where
  "iou a b =
     (if box_area a = 0 \<or> box_area b = 0 then 0
      else of_int (inter_area a b) / of_int (box_area a + box_area b - inter_area a b))"

fun greedy_nms :: "('a \<Rightarrow> box) \<Rightarrow> rat \<Rightarrow> 'a list \<Rightarrow> 'a list" where
  "greedy_nms bx overlap [] = []"
| "greedy_nms bx overlap (c # cs) =
     c # greedy_nms bx overlap (filter (\<lambda>d. \<not> overlap < iou (bx c) (bx d)) cs)"

definition nms_select :: "('a \<Rightarrow> box) \<Rightarrow> ('a \<Rightarrow> rat) \<Rightarrow> rat \<Rightarrow> rat \<Rightarrow> 'a list \<Rightarrow> 'a list" where
  "nms_select bx sc score_threshold overlap xs =
     greedy_nms bx overlap
       (sort_key (\<lambda>x. - sc x) (filter (\<lambda>x. score_threshold \<le> sc x) xs))"

fun as_box :: "pyval \<Rightarrow> error + box" where
  "as_box (PTuple [PInt x0, PInt x1, PInt y0, PInt y1]) = Inr (x0, x1, y0, y1)"
| "as_box _ = Inl TypeError"

fun as_score :: "pyval \<Rightarrow> error + rat" where
  "as_score (PFloat s) = Inr s"
| "as_score (PInt i) = Inr (of_int i)"
| "as_score (PTuple _) = Inl TypeError"

definition NMSBoxes :: nms_routine where
  "NMSBoxes bboxes scores score_threshold nms_threshold =
     (case comprehension as_box bboxes of
        Inl e \<Rightarrow> Inl e
      | Inr bs \<Rightarrow>
         (case comprehension as_score scores of
            Inl e \<Rightarrow> Inl e
          | Inr ss \<Rightarrow>
             Inr (map fst
                   (nms_select (\<lambda>(i, b, s). b) (\<lambda>(i, b, s). s) score_threshold nms_threshold
                      (zip [0..<length bs] (zip bs ss))))))"

section \<open>Notions used to state the properties\<close>

text \<open>The candidate list of a category in a Detection set: empty when the key is absent.\<close>

definition entries :: "('k, 'v) datapack \<Rightarrow> 'k \<Rightarrow> 'v list" where
  "entries d k = (case dict_get d k of Inl _ \<Rightarrow> [] | Inr xs \<Rightarrow> xs)"

text \<open>Truncation toward zero, in the words of the specification.\<close>

definition trunc_zero :: "rat \<Rightarrow> int" where
  "trunc_zero q = (if q < 0 then - \<lfloor>- q\<rfloor> else \<lfloor>q\<rfloor>)"

text \<open>
  Section 4.1, step 3 of the specification, in its words, in exact arithmetic: \<open>x_min\<close>
  and \<open>y_min\<close> are the rounded minimum corner, \<open>x_max = x_min + w\<close> and
  \<open>y_max = y_min + h\<close>, and every coordinate is rounded to an integer by truncation
  toward zero.
\<close>

definition spec_box :: "rat \<Rightarrow> rat \<Rightarrow> rat \<Rightarrow> rat \<Rightarrow> rat \<Rightarrow> rat \<Rightarrow> box" where
  "spec_box img_width img_height center_x center_y width_norm height_norm =
     (let w = width_norm * img_width;
          h = height_norm * img_height;
          x_min = trunc_zero (center_x * img_width - w / 2);
          y_min = trunc_zero (center_y * img_height - h / 2);
          x_max = trunc_zero (of_int x_min + w);
          y_max = trunc_zero (of_int y_min + h)
      in (x_min, x_max, y_min, y_max))"


text \<open>
  The crop of a typed box, and the segments of one category of a typed Detection set:
  the colour conversion applied to the crop of each candidate, in order, stopping at
  the first error.
\<close>

fun crop_box :: "'px image \<Rightarrow> box \<Rightarrow> 'px image" where
  "crop_box img (x0, x1, y0, y1) = crop img y0 y1 x0 x1"

definition category_segments ::
  "('px image \<Rightarrow> error + 'px image) \<Rightarrow> 'px image \<Rightarrow> 'k \<times> candidate list \<Rightarrow>
   error + ('k \<times> 'px image list)" where
  "category_segments cvt img kc =
     (case comprehension (\<lambda>c. cvt (crop_box img (fst c))) (snd kc) of
        Inl e \<Rightarrow> Inl e
      | Inr segments \<Rightarrow> Inr (fst kc, segments))"

text \<open>
  The region of an image that a box covers when each axis is clamped to the range from
  0 to the dimension, as section 4.3 of the specification describes the crop.
\<close>

definition clamp_bound :: "nat \<Rightarrow> int \<Rightarrow> nat" where
  "clamp_bound n i = min (nat i) n"

definition spec_crop :: "'px image \<Rightarrow> box \<Rightarrow> 'px image" where
  "spec_crop img b =
     (case b of (x0, x1, y0, y1) \<Rightarrow>
        map (\<lambda>r. map (\<lambda>c. img ! r ! c)
                   [clamp_bound (length (img ! r)) x0 ..< clamp_bound (length (img ! r)) x1])
            [clamp_bound (length img) y0 ..< clamp_bound (length img) y1])"

text \<open>
  An image of 100 rows and 100 columns whose pixel at row \<open>r\<close> and column \<open>c\<close> is
  \<open>(r, c, 0)\<close>, for the scenarios of section 8 of the specification.
\<close>

definition img100 :: "(nat \<times> nat \<times> nat) image" where
  "img100 = map (\<lambda>r. map (\<lambda>c. (r, c, 0)) [0..<100]) [0..<100]"

text \<open>
  What the Suppressor does with one category of a typed Detection set: the routine is
  called on the boxes and the confidences with both thresholds, and the candidates at
  the returned indices are kept, in the order of the indices.
\<close>

definition category_kept ::
  "nms_routine \<Rightarrow> rat \<Rightarrow> rat \<Rightarrow> 'k \<times> candidate list \<Rightarrow> error + ('k \<times> candidate list)" where
  "category_kept nms nms_threshold score_threshold kc =
     (case nms (map (\<lambda>c. box_val (fst c)) (snd kc)) (map (\<lambda>c. PFloat (snd c)) (snd kc))
             score_threshold nms_threshold of
        Inl e \<Rightarrow> Inl e
      | Inr indexes \<Rightarrow>
         (case comprehension (list_at (snd kc)) indexes of
            Inl e \<Rightarrow> Inl e
          | Inr kept \<Rightarrow> Inr (fst kc, kept)))"

section \<open>Properties of the Decoder\<close>

lemma get_coordinates_raises:
  "get_coordinates ops output_data keys = Inl ValueError"
  by (simp add: get_coordinates_def unpack2_def)

text \<open>
  Claim C2 says that for an empty row sequence \<^verbatim>\<open>get_coordinates\<close> returns an empty
  Detection set without raising. The code does not: line 136 unpacks the empty tuple
  into two names, which raises ValueError before the keys are normalised and before any
  row is scanned, for an output tuple without tensors as for one tensor without rows.
\<close>

theorem get_coordinates_empty_rows_raises:
  "get_coordinates ops [] keys = Inl ValueError \<and>
   get_coordinates ops [[]] keys = Inl ValueError"
  by (simp add: get_coordinates_def unpack2_def)

text \<open>
  Claim C10: a key that is not a list is treated as the list of that one key. Both calls
  of \<^verbatim>\<open>get_coordinates\<close> agree, and so do the lines after the assignment of the image
  dimensions (138-162), whatever the dimensions are.
\<close>

theorem single_key_as_singleton:
  "get_coordinates ops output_data (Single k) = get_coordinates ops output_data (Many [k]) \<and>
   decode_from ops img_height img_width output_data (Single k) =
     decode_from ops img_height img_width output_data (Many [k])"
  by (simp add: get_coordinates_def decode_from_def unpack2_def)

lemma argmax_scan_inv:
  "(argmax_scan best bi i vs = bi \<and> (\<forall>v \<in> set vs. v \<le> best)) \<or>
   (i \<le> argmax_scan best bi i vs \<and> argmax_scan best bi i vs - i < length vs \<and>
    best < vs ! (argmax_scan best bi i vs - i) \<and>
    (\<forall>j < length vs. vs ! j \<le> vs ! (argmax_scan best bi i vs - i)) \<and>
    (\<forall>j < argmax_scan best bi i vs - i. vs ! j < vs ! (argmax_scan best bi i vs - i)))"
proof (induction vs arbitrary: best bi i)
  case Nil
  then show ?case by simp
next
  case (Cons v vs)
  show ?case
  proof (cases "best < v")
    case True
    let ?r = "argmax_scan v i (Suc i) vs"
    from Cons.IH[of v i "Suc i"] show ?thesis
    proof
      assume a: "?r = i \<and> (\<forall>u \<in> set vs. u \<le> v)"
      have "\<forall>j<length (v # vs). (v # vs) ! j \<le> v"
        using a by (auto simp: nth_Cons split: nat.splits)
      with a True show ?thesis by simp
    next
      assume a: "Suc i \<le> ?r \<and> ?r - Suc i < length vs \<and> v < vs ! (?r - Suc i) \<and>
        (\<forall>j<length vs. vs ! j \<le> vs ! (?r - Suc i)) \<and> (\<forall>j<?r - Suc i. vs ! j < vs ! (?r - Suc i))"
      then obtain m where m: "?r - i = Suc m" "?r - Suc i = m"
        by (metis Suc_diff_Suc Suc_le_lessD)
      have "\<forall>j<length (v # vs). (v # vs) ! j \<le> vs ! m"
        using a m by (auto simp: nth_Cons less_imp_le split: nat.splits)
      moreover have "\<forall>j<Suc m. (v # vs) ! j < vs ! m"
        using a m by (auto simp: nth_Cons split: nat.splits)
      ultimately show ?thesis using a m True by auto
    qed
  next
    case False
    let ?r = "argmax_scan best bi (Suc i) vs"
    from Cons.IH[of best bi "Suc i"] show ?thesis
    proof
      assume a: "?r = bi \<and> (\<forall>u \<in> set vs. u \<le> best)"
      with False show ?thesis by auto
    next
      assume a: "Suc i \<le> ?r \<and> ?r - Suc i < length vs \<and> best < vs ! (?r - Suc i) \<and>
        (\<forall>j<length vs. vs ! j \<le> vs ! (?r - Suc i)) \<and> (\<forall>j<?r - Suc i. vs ! j < vs ! (?r - Suc i))"
      then obtain m where m: "?r - i = Suc m" "?r - Suc i = m"
        by (metis Suc_diff_Suc Suc_le_lessD)
      have "\<forall>j<length (v # vs). (v # vs) ! j \<le> vs ! m"
        using a m False by (auto simp: nth_Cons split: nat.splits)
      moreover have "\<forall>j<Suc m. (v # vs) ! j < vs ! m"
        using a m False by (auto simp: nth_Cons split: nat.splits)
      ultimately show ?thesis using a m False by auto
    qed
  qed
qed

lemma argmax_first_max:
  assumes "scores \<noteq> []"
  shows "\<exists>i. argmax scores = Inr i \<and> i < length scores \<and>
             (\<forall>j < length scores. scores ! j \<le> scores ! i) \<and>
             (\<forall>j < i. scores ! j < scores ! i)"
proof -
  from assms obtain v vs where s: "scores = v # vs" by (cases scores) auto
  let ?r = "argmax_scan v 0 1 vs"
  have r: "argmax scores = Inr ?r" by (simp add: argmax_def s)
  from argmax_scan_inv[of v 0 1 vs] show ?thesis
  proof
    assume a: "?r = 0 \<and> (\<forall>u \<in> set vs. u \<le> v)"
    have "\<forall>j<length (v # vs). (v # vs) ! j \<le> v"
      using a by (auto simp: nth_Cons split: nat.splits)
    with a r s show ?thesis by simp
  next
    assume a: "1 \<le> ?r \<and> ?r - 1 < length vs \<and> v < vs ! (?r - 1) \<and>
        (\<forall>j<length vs. vs ! j \<le> vs ! (?r - 1)) \<and> (\<forall>j<?r - 1. vs ! j < vs ! (?r - 1))"
    then obtain m where m: "?r = Suc m" by (cases ?r) auto
    have "\<forall>j<length (v # vs). (v # vs) ! j \<le> vs ! m"
      using a m by (auto simp: nth_Cons less_imp_le split: nat.splits)
    moreover have "\<forall>j<Suc m. (v # vs) ! j < vs ! m"
      using a m by (auto simp: nth_Cons split: nat.splits)
    ultimately show ?thesis using a m r s by auto
  qed
qed
lemma dict_has_get: "dict_has d k \<longleftrightarrow> (\<exists>v. dict_get d k = Inr v)"
  by (induction d) auto

lemma dict_get_absent: "\<not> dict_has d k \<Longrightarrow> dict_get d k = Inl KeyError"
  by (induction d) auto

lemma dict_get_set_same: "dict_get (dict_set k v d) k = Inr v"
  by (induction d) auto

lemma dict_get_set_other: "k' \<noteq> k \<Longrightarrow> dict_get (dict_set k v d) k' = dict_get d k'"
  by (induction d) auto

lemma dict_set_twice: "dict_set k v (dict_set k u d) = dict_set k v d"
  by (induction d) auto

lemma keys_dict_set_present: "dict_has d k \<Longrightarrow> map fst (dict_set k v d) = map fst d"
  by (induction d) auto

lemma keys_dict_set_absent: "\<not> dict_has d k \<Longrightarrow> map fst (dict_set k v d) = map fst d @ [k]"
  by (induction d) auto

lemma dict_has_keys: "dict_has d k \<longleftrightarrow> k \<in> set (map fst d)"
  by (induction d) auto

lemma dict_append_eq: "dict_has d k \<Longrightarrow> dict_append k x d = Inr (dict_set k (entries d k @ [x]) d)"
  by (auto simp: dict_append_def entries_def dict_has_get)

lemma decode_detection_eq:
  assumes "argmax (scores_of detection) = Inr i"
  shows "decode_detection ops img_height img_width keys detection fridge =
     (if key_in i keys
      then (case candidate_data ops img_height img_width detection (scores_of detection ! i) of
              Inl e \<Rightarrow> Inl e
            | Inr data \<Rightarrow> Inr (dict_set i (entries fridge i @ [data]) fridge))
      else Inr fridge)"
proof (cases "dict_has fridge i")
  case True
  then show ?thesis using assms
    by (simp add: decode_detection_def Let_def dict_append_eq split: sum.splits)
next
  case False
  have "dict_has (dict_set i [] fridge) i" by (simp add: dict_has_get dict_get_set_same)
  moreover have "entries (dict_set i [] fridge) i = entries fridge i"
    using False by (simp add: entries_def dict_get_set_same dict_get_absent)
  ultimately show ?thesis using False assms
    by (simp add: decode_detection_def Let_def dict_append_eq dict_set_twice split: sum.splits)
qed

lemma py_int_finite: "py_int (Finite q) = Inr (trunc_zero q)"
  by (auto simp: trunc_zero_def ceiling_def)

lemma candidate_data_shape:
  assumes "candidate_data ops img_height img_width detection score = Inr data"
  shows "\<exists>x_min x_max y_min y_max.
     data = PTuple [PInt x_min, PInt x_max, PInt y_min, PInt y_max, PFloat score]"
  using assms by (auto simp: candidate_data_def Let_def split: sum.splits)

lemma candidate_data_unfold:
  assumes "w = fmul ops (Finite (detection ! 2)) (Finite img_width)"
    and "h = fmul ops (Finite (detection ! 3)) (Finite img_height)"
    and "x = fsub ops (fmul ops (Finite (detection ! 0)) (Finite img_width)) (fdiv ops w (Finite 2))"
    and "y = fsub ops (fmul ops (Finite (detection ! 1)) (Finite img_height)) (fdiv ops h (Finite 2))"
  shows "candidate_data ops img_height img_width detection score =
     (case py_int x of Inl e \<Rightarrow> Inl e | Inr x0 \<Rightarrow>
        (case py_int (fadd ops x w) of Inl e \<Rightarrow> Inl e | Inr x1 \<Rightarrow>
        (case py_int y of Inl e \<Rightarrow> Inl e | Inr y0 \<Rightarrow>
        (case py_int (fadd ops y h) of Inl e \<Rightarrow> Inl e | Inr y1 \<Rightarrow>
           Inr (PTuple [PInt x0, PInt x1, PInt y0, PInt y1, PFloat score])))))"
  unfolding candidate_data_def Let_def assms ..

lemma candidate_data_finite:
  assumes "w = fmul ops (Finite (detection ! 2)) (Finite img_width)"
    and "h = fmul ops (Finite (detection ! 3)) (Finite img_height)"
    and "x = fsub ops (fmul ops (Finite (detection ! 0)) (Finite img_width)) (fdiv ops w (Finite 2))"
    and "y = fsub ops (fmul ops (Finite (detection ! 1)) (Finite img_height)) (fdiv ops h (Finite 2))"
    and "x = Finite qx" and "fadd ops x w = Finite qxw"
    and "y = Finite qy" and "fadd ops y h = Finite qyh"
  shows "candidate_data ops img_height img_width detection score =
     Inr (PTuple [PInt (trunc_zero qx), PInt (trunc_zero qxw),
                  PInt (trunc_zero qy), PInt (trunc_zero qyh), PFloat score])"
proof -
  have 1: "py_int x = Inr (trunc_zero qx)" unfolding assms(5) by (rule py_int_finite)
  have 2: "py_int (fadd ops x w) = Inr (trunc_zero qxw)" unfolding assms(6) by (rule py_int_finite)
  have 3: "py_int y = Inr (trunc_zero qy)" unfolding assms(7) by (rule py_int_finite)
  have 4: "py_int (fadd ops y h) = Inr (trunc_zero qyh)" unfolding assms(8) by (rule py_int_finite)
  show ?thesis
    unfolding candidate_data_unfold[OF assms(1-4)] 1 2 3 4 by simp
qed

lemma py_int_success: "py_int v = Inr n \<Longrightarrow> \<exists>q. v = Finite q"
  by (cases v) auto

lemma candidate_data_not_finite:
  assumes "w = fmul ops (Finite (detection ! 2)) (Finite img_width)"
    and "h = fmul ops (Finite (detection ! 3)) (Finite img_height)"
    and "x = fsub ops (fmul ops (Finite (detection ! 0)) (Finite img_width)) (fdiv ops w (Finite 2))"
    and "y = fsub ops (fmul ops (Finite (detection ! 1)) (Finite img_height)) (fdiv ops h (Finite 2))"
    and "candidate_data ops img_height img_width detection score = Inr data"
  shows "\<exists>qx qxw qy qyh. x = Finite qx \<and> fadd ops x w = Finite qxw \<and>
                          y = Finite qy \<and> fadd ops y h = Finite qyh"
proof -
  from assms(5) candidate_data_unfold[OF assms(1-4), of score]
  obtain a b c d where "py_int x = Inr a" "py_int (fadd ops x w) = Inr b"
      "py_int y = Inr c" "py_int (fadd ops y h) = Inr d"
    by (auto split: sum.splits)
  then have "(\<exists>q. x = Finite q) \<and> (\<exists>q. fadd ops x w = Finite q) \<and>
      (\<exists>q. y = Finite q) \<and> (\<exists>q. fadd ops y h = Finite q)"
    by (intro conjI) (erule py_int_success)+
  then show ?thesis by blast
qed

text \<open>
  Claim C6: the category chosen for a row is the index of the maximum of its score
  vector, the lowest such index on a tie, and the stored confidence is the score at
  that index. Stated on the body of the loop (lines 143-160): for a row with a
  non-empty score vector \<^verbatim>\<open>np.argmax\<close> returns an index \<open>i\<close> at which no score is greater
  and before which every score is strictly smaller; a retained row appends the item
  built for it to the list of key \<open>i\<close> (unless \<^verbatim>\<open>int\<close> raises on a box coordinate), and
  the last component of the item is the score at \<open>i\<close>.
\<close>

theorem decoder_argmax_first_maximum:
  assumes "scores_of detection \<noteq> []"
  shows "\<exists>i. argmax (scores_of detection) = Inr i \<and> i < length (scores_of detection) \<and>
     (\<forall>j < length (scores_of detection). scores_of detection ! j \<le> scores_of detection ! i) \<and>
     (\<forall>j < i. scores_of detection ! j < scores_of detection ! i) \<and>
     decode_detection ops img_height img_width keys detection fridge =
       (if key_in i keys
        then (case candidate_data ops img_height img_width detection (scores_of detection ! i) of
                Inl e \<Rightarrow> Inl e
              | Inr data \<Rightarrow> Inr (dict_set i (entries fridge i @ [data]) fridge))
        else Inr fridge) \<and>
     (\<forall>data. candidate_data ops img_height img_width detection (scores_of detection ! i) = Inr data
        \<longrightarrow> subscript data 4 = Inr (PFloat (scores_of detection ! i)))"
proof -
  from argmax_first_max[OF assms] obtain i where
    i: "argmax (scores_of detection) = Inr i" "i < length (scores_of detection)"
       "\<forall>j < length (scores_of detection). scores_of detection ! j \<le> scores_of detection ! i"
       "\<forall>j < i. scores_of detection ! j < scores_of detection ! i"
    by blast
  have "\<forall>data. candidate_data ops img_height img_width detection (scores_of detection ! i) = Inr data
        \<longrightarrow> subscript data 4 = Inr (PFloat (scores_of detection ! i))"
    using candidate_data_shape by (fastforce simp: tuple_item_def)
  with i decode_detection_eq[OF i(1)] show ?thesis by blast
qed

theorem decoder_argmax_first_maximum_witness:
  "scores_of [1/4, 1/4, 1/8, 1/8, 7/8, 3/4, 1/8, 3/4] \<noteq> [] \<and>
   argmax (scores_of [1/4, 1/4, 1/8, 1/8, 7/8, 3/4, 1/8, 3/4]) = Inr 0 \<and>
   candidate_data exact_ops 100 100 [1/4, 1/4, 1/8, 1/8, 7/8, 3/4, 1/8, 3/4] (3/4) =
     Inr (PTuple [PInt 18, PInt 31, PInt 18, PInt 31, PFloat (3/4)]) \<and>
   (\<exists>i. argmax (scores_of [1/4, 1/4, 1/8, 1/8, 7/8, 3/4, 1/8, 3/4]) = Inr i \<and>
     decode_detection exact_ops 100 100 [KInt 0]
         [1/4, 1/4, 1/8, 1/8, 7/8, 3/4, 1/8, 3/4] [] =
       (if key_in i [KInt 0]
        then (case candidate_data exact_ops 100 100
                     [1/4, 1/4, 1/8, 1/8, 7/8, 3/4, 1/8, 3/4]
                     (scores_of [1/4, 1/4, 1/8, 1/8, 7/8, 3/4, 1/8, 3/4] ! i) of
                Inl e \<Rightarrow> Inl e
              | Inr data \<Rightarrow> Inr (dict_set i (entries [] i @ [data]) []))
        else Inr []))"
proof -
  let ?row = "[1/4, 1/4, 1/8, 1/8, 7/8, 3/4, 1/8, 3/4] :: rat list"
  have f: "\<lfloor>75 / 4 :: rat\<rfloor> = 18" "\<lfloor>125 / 4 :: rat\<rfloor> = 31"
    by (simp_all add: floor_eq_iff)
  have a: "scores_of ?row \<noteq> []" by (simp add: scores_of_def)
  have b: "argmax (scores_of ?row) = Inr 0" by (simp add: scores_of_def argmax_def)
  have c: "candidate_data exact_ops 100 100 ?row (3/4) =
     Inr (PTuple [PInt 18, PInt 31, PInt 18, PInt 31, PFloat (3/4)])"
    by (simp add: candidate_data_def exact_ops_def Let_def f)
  from decoder_argmax_first_maximum[OF a, of exact_ops 100 100 "[KInt 0]" "[]"] a b c
  show ?thesis by blast
qed

text \<open>
  Claim C4 says that the box satisfies \<open>x_max = x_min + w\<close> and \<open>y_max = y_min + h\<close>
  with \<open>x_min\<close> and \<open>y_min\<close> as computed in section 4.1, step 3, where they are already
  rounded. The code adds before it truncates: \<^verbatim>\<open>int(x + w)\<close> with the untruncated \<open>x\<close>. On a
  64 by 64 image the row with centre 1/2 and size 65/128 has \<open>w = 32.5\<close> and
  \<open>x = 15.75\<close>; the code stores x-min 15 and x-max 48, the truncation of 48.25, while
  x-min plus \<open>w\<close> is 47.5 and truncates to 47. Every value of this computation is a
  dyadic number of few digits, so floating point arithmetic computes it without
  rounding error.
\<close>

theorem box_maximum_not_from_rounded_minimum:
  "decode_detection exact_ops 64 64 [KInt 0] [1/2, 1/2, 65/128, 65/128, 0, 1] [] =
     Inr [(0, [PTuple [PInt 15, PInt 48, PInt 15, PInt 48, PFloat 1]])] \<and>
   spec_box 64 64 (1/2) (1/2) (65/128) (65/128) = (15, 47, 15, 47) \<and>
   (15::rat) + 65/128 * 64 \<noteq> 48"
proof -
  have f: "\<lfloor>63 / 4 :: rat\<rfloor> = 15" "\<lfloor>193 / 4 :: rat\<rfloor> = 48" "\<lfloor>95 / 2 :: rat\<rfloor> = 47"
    by (simp_all add: floor_eq_iff)
  show ?thesis
    by (simp add: decode_detection_def scores_of_def argmax_def key_in_def dict_append_def
        candidate_data_def exact_ops_def spec_box_def trunc_zero_def Let_def f)
qed

text \<open>
  Claim C4 as amended, for whatever the floating point operations return: let \<open>w\<close> and
  \<open>h\<close> be the products of the normalised size with the image dimensions, and \<open>x\<close>, \<open>y\<close>
  the products of the normalised centre with the dimensions minus half of \<open>w\<close>, \<open>h\<close>,
  each operation in floating point and none rounded to an integer. When \<open>x\<close>, \<open>y\<close> and
  the floating point sums \<open>x + w\<close>, \<open>y + h\<close> are finite, a retained row is stored with the
  box of their truncations toward zero: x-max and y-max are the truncations of the sums
  of the untruncated \<open>x\<close>, \<open>y\<close> with \<open>w\<close>, \<open>h\<close>. The row is stored in no other case.
\<close>

theorem decoded_box_truncates_sums:
  assumes "argmax (scores_of detection) = Inr i" and "key_in i keys"
    and "w = fmul ops (Finite (detection ! 2)) (Finite img_width)"
    and "h = fmul ops (Finite (detection ! 3)) (Finite img_height)"
    and "x = fsub ops (fmul ops (Finite (detection ! 0)) (Finite img_width)) (fdiv ops w (Finite 2))"
    and "y = fsub ops (fmul ops (Finite (detection ! 1)) (Finite img_height)) (fdiv ops h (Finite 2))"
  shows "(\<forall>qx qxw qy qyh.
        x = Finite qx \<and> fadd ops x w = Finite qxw \<and> y = Finite qy \<and> fadd ops y h = Finite qyh \<longrightarrow>
        decode_detection ops img_height img_width keys detection fridge =
          Inr (dict_set i (entries fridge i @
                 [PTuple [PInt (trunc_zero qx), PInt (trunc_zero qxw),
                          PInt (trunc_zero qy), PInt (trunc_zero qyh),
                          PFloat (scores_of detection ! i)]]) fridge)) \<and>
     (\<forall>fridge'. decode_detection ops img_height img_width keys detection fridge = Inr fridge' \<longrightarrow>
        (\<exists>qx qxw qy qyh.
           x = Finite qx \<and> fadd ops x w = Finite qxw \<and> y = Finite qy \<and> fadd ops y h = Finite qyh))"
proof (intro conjI allI impI)
  fix qx qxw qy qyh
  assume "x = Finite qx \<and> fadd ops x w = Finite qxw \<and> y = Finite qy \<and> fadd ops y h = Finite qyh"
  then have "candidate_data ops img_height img_width detection (scores_of detection ! i) =
     Inr (PTuple [PInt (trunc_zero qx), PInt (trunc_zero qxw),
                  PInt (trunc_zero qy), PInt (trunc_zero qyh), PFloat (scores_of detection ! i)])"
    using candidate_data_finite[OF assms(3-6)] by blast
  then show "decode_detection ops img_height img_width keys detection fridge =
          Inr (dict_set i (entries fridge i @
                 [PTuple [PInt (trunc_zero qx), PInt (trunc_zero qxw),
                          PInt (trunc_zero qy), PInt (trunc_zero qyh),
                          PFloat (scores_of detection ! i)]]) fridge)"
    using assms(1,2) by (simp add: decode_detection_eq)
next
  fix fridge'
  assume "decode_detection ops img_height img_width keys detection fridge = Inr fridge'"
  then obtain data where
    "candidate_data ops img_height img_width detection (scores_of detection ! i) = Inr data"
    using assms(1,2) by (auto simp: decode_detection_eq split: sum.splits)
  from candidate_data_not_finite[OF assms(3-6) this]
  show "\<exists>qx qxw qy qyh.
           x = Finite qx \<and> fadd ops x w = Finite qxw \<and> y = Finite qy \<and> fadd ops y h = Finite qyh" .
qed

theorem decoded_box_truncates_sums_witness:
  "argmax (scores_of [1/2, 1/2, 65/128, 65/128, 0, 1]) = Inr 0 \<and>
   key_in 0 [KInt 0] \<and>
   fmul exact_ops (Finite (65/128)) (Finite 64) = Finite (65/2) \<and>
   fsub exact_ops (fmul exact_ops (Finite (1/2)) (Finite 64))
                  (fdiv exact_ops (Finite (65/2)) (Finite 2)) = Finite (63/4) \<and>
   fadd exact_ops (Finite (63/4)) (Finite (65/2)) = Finite (193/4) \<and>
   trunc_zero (63/4) = 15 \<and> trunc_zero (193/4) = 48 \<and>
   decode_detection exact_ops 64 64 [KInt 0] [1/2, 1/2, 65/128, 65/128, 0, 1] [] =
     Inr [(0, [PTuple [PInt 15, PInt 48, PInt 15, PInt 48, PFloat 1]])]"
proof -
  let ?row = "[1/2, 1/2, 65/128, 65/128, 0, 1] :: rat list"
  have a: "argmax (scores_of ?row) = Inr 0" by (simp add: scores_of_def argmax_def)
  have k: "key_in 0 [KInt 0]" by (simp add: key_in_def)
  have w: "Finite (65/2) = fmul exact_ops (Finite (?row ! 2)) (Finite 64)"
    by (simp add: exact_ops_def)
  have h: "Finite (65/2) = fmul exact_ops (Finite (?row ! 3)) (Finite 64)"
    by (simp add: exact_ops_def)
  have x: "Finite (63/4) = fsub exact_ops (fmul exact_ops (Finite (?row ! 0)) (Finite 64))
                  (fdiv exact_ops (Finite (65/2)) (Finite 2))"
    by (simp add: exact_ops_def)
  have y: "Finite (63/4) = fsub exact_ops (fmul exact_ops (Finite (?row ! 1)) (Finite 64))
                  (fdiv exact_ops (Finite (65/2)) (Finite 2))"
    by (simp add: exact_ops_def)
  have s: "fadd exact_ops (Finite (63/4)) (Finite (65/2)) = Finite (193/4)"
    by (simp add: exact_ops_def)
  have f: "\<lfloor>63 / 4 :: rat\<rfloor> = 15" "\<lfloor>193 / 4 :: rat\<rfloor> = 48"
    by (simp_all add: floor_eq_iff)
  have t: "trunc_zero (63/4) = 15" "trunc_zero (193/4) = 48"
    by (simp_all add: trunc_zero_def f)
  have e: "Finite (63/4) = Finite (63/4 :: rat) \<and>
      fadd exact_ops (Finite (63/4)) (Finite (65/2)) = Finite (193/4) \<and>
      Finite (63/4) = Finite (63/4 :: rat) \<and>
      fadd exact_ops (Finite (63/4)) (Finite (65/2)) = Finite (193/4)"
    by (intro conjI refl s)
  note c = decoded_box_truncates_sums[OF a k w h x y, of "[]"]
  from c[THEN conjunct1, rule_format, OF e]
  have d: "decode_detection exact_ops 64 64 [KInt 0] ?row [] =
      Inr [(0, [PTuple [PInt 15, PInt 48, PInt 15, PInt 48, PFloat 1]])]"
    by (simp add: t entries_def scores_of_def)
  have w': "fmul exact_ops (Finite (65/128)) (Finite 64) = Finite (65/2)"
    by (simp add: exact_ops_def)
  have x': "fsub exact_ops (fmul exact_ops (Finite (1/2)) (Finite 64))
                  (fdiv exact_ops (Finite (65/2)) (Finite 2)) = Finite (63/4)"
    by (simp add: exact_ops_def)
  from a k w' x' s t d show ?thesis by (intro conjI)
qed





section \<open>The shape of the items across the three components\<close>

text \<open>
  Claim C1 says that the item the Decoder appends is the pair (box, confidence) that
  the Suppressor reads through \<^verbatim>\<open>x[0]\<close> and \<^verbatim>\<open>x[1]\<close> and the Extractor through
  \<^verbatim>\<open>data[0]\<close>. The code appends a flat tuple of five components. For every item the
  Decoder builds, the Extractor takes the int x-min for the zone and raises TypeError
  at \<^verbatim>\<open>zone[2]\<close>; the Suppressor hands the suppression routine the int x-min as the box
  and the int x-max as the confidence, which the routine of the specification rejects.
\<close>

theorem decoder_item_is_not_a_pair:
  assumes "candidate_data ops img_height img_width detection score = Inr data"
  shows "\<exists>x_min x_max y_min y_max.
     data = PTuple [PInt x_min, PInt x_max, PInt y_min, PInt y_max, PFloat score] \<and>
     segment_of cvt img data = Inl TypeError \<and>
     extract_image_segments cvt img [(k, [data])] = Inl TypeError \<and>
     remove_overlapping_items nms [(k, [data])] nms_threshold score_threshold =
       (case nms [PInt x_min] [PInt x_max] score_threshold nms_threshold of
          Inl e \<Rightarrow> Inl e
        | Inr indexes \<Rightarrow>
           (case comprehension (list_at [data]) indexes of
              Inl e \<Rightarrow> Inl e
            | Inr kept \<Rightarrow> Inr [(k, kept)])) \<and>
     remove_overlapping_items NMSBoxes [(k, [data])] nms_threshold score_threshold =
       Inl TypeError"
proof -
  from candidate_data_shape[OF assms] obtain x_min x_max y_min y_max where
    d: "data = PTuple [PInt x_min, PInt x_max, PInt y_min, PInt y_max, PFloat score]"
    by blast
  have i0: "subscript data 0 = Inr (PInt x_min)" and i1: "subscript data 1 = Inr (PInt x_max)"
    by (simp_all add: d tuple_item_def)
  have seg: "segment_of cvt img data = Inl TypeError"
    by (simp add: segment_of_def i0)
  have ext: "extract_image_segments cvt img [(k, [data])] = Inl TypeError"
    by (simp add: extract_image_segments_def seg)
  have sup: "remove_overlapping_items nms [(k, [data])] nms_threshold score_threshold =
       (case nms [PInt x_min] [PInt x_max] score_threshold nms_threshold of
          Inl e \<Rightarrow> Inl e
        | Inr indexes \<Rightarrow>
           (case comprehension (list_at [data]) indexes of
              Inl e \<Rightarrow> Inl e
            | Inr kept \<Rightarrow> Inr [(k, kept)]))" for nms
    by (simp add: remove_overlapping_items_def suppress_row_def i0 i1 split: sum.splits)
  have "remove_overlapping_items NMSBoxes [(k, [data])] nms_threshold score_threshold =
       Inl TypeError"
    by (simp add: sup NMSBoxes_def)
  with d seg ext sup show ?thesis by blast
qed

theorem decoder_item_is_not_a_pair_witness:
  "candidate_data exact_ops 100 100 [1/4, 1/4, 1/8, 1/8, 7/8, 1/8, 3/4] (3/4) =
     Inr (PTuple [PInt 18, PInt 31, PInt 18, PInt 31, PFloat (3/4)]) \<and>
   decode_from exact_ops 100 100 [[[1/4, 1/4, 1/8, 1/8, 7/8, 1/8, 3/4]]] (Many [KInt 1]) =
     Inr [(1, [PTuple [PInt 18, PInt 31, PInt 18, PInt 31, PFloat (3/4)]])] \<and>
   extract_image_segments bgr2rgb (replicate 100 (replicate 100 (1, 2, 3)))
     [(1::nat, [PTuple [PInt 18, PInt 31, PInt 18, PInt 31, PFloat (3/4)]])] =
     Inl TypeError \<and>
   remove_overlapping_items NMSBoxes
     [(1::nat, [PTuple [PInt 18, PInt 31, PInt 18, PInt 31, PFloat (3/4)]])]
     (3/10) (1/2) = Inl TypeError"
proof -
  let ?row = "[1/4, 1/4, 1/8, 1/8, 7/8, 1/8, 3/4] :: rat list"
  let ?item = "PTuple [PInt 18, PInt 31, PInt 18, PInt 31, PFloat (3/4)]"
  have f: "\<lfloor>75 / 4 :: rat\<rfloor> = 18" "\<lfloor>125 / 4 :: rat\<rfloor> = 31"
    by (simp_all add: floor_eq_iff)
  have c: "candidate_data exact_ops 100 100 ?row (3/4) = Inr ?item"
    by (simp add: candidate_data_def exact_ops_def Let_def f)
  note t = decoder_item_is_not_a_pair
    [OF c, of bgr2rgb "replicate 100 (replicate 100 (1, 2, 3))" "1::nat" _ "3/10" "1/2"]
  have a: "extract_image_segments bgr2rgb (replicate 100 (replicate 100 (1, 2, 3)))
     [(1::nat, [?item])] = Inl TypeError"
    using t by blast
  have b: "remove_overlapping_items NMSBoxes [(1::nat, [?item])] (3/10) (1/2) = Inl TypeError"
    using t by blast
  have d: "decode_from exact_ops 100 100 [[?row]] (Many [KInt 1]) = Inr [(1, [?item])]"
    by (simp add: decode_from_def decode_detection_def scores_of_def argmax_def key_in_def
        dict_append_def candidate_data_def exact_ops_def Let_def f)
  from a b c d show ?thesis by blast
qed

section \<open>Properties of the Extractor\<close>

lemma segment_of_cand_val:
  "segment_of cvt img (cand_val (b, c)) = cvt (crop_box img b)"
  by (cases b) (simp add: segment_of_def tuple_item_def)

lemma dict_set_absent: "\<not> dict_has d k \<Longrightarrow> dict_set k v d = d @ [(k, v)]"
  by (induction d) auto

lemma dict_get_append_last: "\<not> dict_has d k \<Longrightarrow> dict_get (d @ [(k, v)]) k = Inr v"
  by (induction d) auto

lemma dict_set_append_last: "\<not> dict_has d k \<Longrightarrow> dict_set k v (d @ [(k, u)]) = d @ [(k, v)]"
  by (induction d) auto

lemma dict_has_append: "dict_has (d @ d') k \<longleftrightarrow> dict_has d k \<or> dict_has d' k"
  by (induction d) auto

lemma extract_items_typed:
  assumes "\<not> dict_has new k"
  shows "extract_items cvt img k (map cand_val cs) (new @ [(k, acc)]) =
     (case comprehension (\<lambda>c. cvt (crop_box img (fst c))) cs of
        Inl e \<Rightarrow> Inl e
      | Inr segments \<Rightarrow> Inr (new @ [(k, acc @ segments)]))"
proof (induction cs arbitrary: acc)
  case Nil
  then show ?case by simp
next
  case (Cons c cs)
  obtain b s where c: "c = (b, s)" by (cases c)
  show ?case
  proof (cases "cvt (crop_box img b)")
    case (Inl e)
    then show ?thesis by (simp add: c segment_of_cand_val del: cand_val.simps)
  next
    case (Inr seg)
    have "dict_append k seg (new @ [(k, acc)]) = Inr (new @ [(k, acc @ [seg])])"
      using assms by (simp add: dict_append_def dict_get_append_last dict_set_append_last)
    then show ?thesis
      using Inr Cons.IH[of "acc @ [seg]"]
      by (simp add: c segment_of_cand_val del: cand_val.simps split: sum.splits)
  qed
qed

lemma dict_get_embed:
  "distinct (map fst ds) \<Longrightarrow> (k, cs) \<in> set ds \<Longrightarrow> dict_get (embed ds) k = Inr (map cand_val cs)"
  by (induction ds) (auto simp: embed_def rev_image_eqI)

lemma extract_keys_typed:
  assumes "\<forall>kc \<in> set ds. dict_get dp (fst kc) = Inr (map cand_val (snd kc))"
    and "distinct (map fst ds)"
    and "\<forall>kc \<in> set ds. \<not> dict_has new (fst kc)"
  shows "extract_keys cvt img (map fst ds) dp new =
     (case comprehension (category_segments cvt img) ds of
        Inl e \<Rightarrow> Inl e
      | Inr rs \<Rightarrow> Inr (new @ rs))"
  using assms
proof (induction ds arbitrary: new)
  case Nil
  then show ?case by simp
next
  case (Cons kc ds)
  obtain k cs where kc: "kc = (k, cs)" by (cases kc)
  have absent: "\<not> dict_has new k" using Cons.prems(3) by (simp add: kc)
  have get: "dict_get dp k = Inr (map cand_val cs)" using Cons.prems(1) by (simp add: kc)
  have items: "extract_items cvt img k (map cand_val cs) (new @ [(k, [])]) =
     (case comprehension (\<lambda>c. cvt (crop_box img (fst c))) cs of
        Inl e \<Rightarrow> Inl e | Inr segments \<Rightarrow> Inr (new @ [(k, segments)]))"
    using extract_items_typed[OF absent, of cvt img cs "[]"] by (simp cong: sum.case_cong)
  show ?case
  proof (cases "comprehension (\<lambda>c. cvt (crop_box img (fst c))) cs")
    case (Inl e)
    then have "category_segments cvt img (k, cs) = Inl e"
      by (simp add: category_segments_def)
    then show ?thesis
      using absent get Inl by (simp add: kc dict_set_absent items)
  next
    case (Inr segs)
    then have cat: "category_segments cvt img (k, cs) = Inr (k, segs)"
      by (simp add: category_segments_def)
    have "\<forall>kc \<in> set ds. \<not> dict_has (new @ [(k, segs)]) (fst kc)"
      using Cons.prems(2,3) by (auto simp: kc dict_has_append)
    with Cons.IH[of "new @ [(k, segs)]"] Cons.prems(1,2)
    have "extract_keys cvt img (map fst ds) dp (new @ [(k, segs)]) =
      (case comprehension (category_segments cvt img) ds of
         Inl e \<Rightarrow> Inl e | Inr rs \<Rightarrow> Inr ((new @ [(k, segs)]) @ rs))"
      by simp
    then show ?thesis
      using absent get Inr cat
      by (simp add: kc dict_set_absent items split: sum.splits)
  qed
qed

lemma extract_image_segments_typed:
  assumes "distinct (map fst ds)"
  shows "extract_image_segments cvt img (embed ds) = comprehension (category_segments cvt img) ds"
proof -
  have keys: "map fst (embed ds) = map fst ds"
    by (simp add: embed_def case_prod_unfold comp_def)
  have "\<forall>kc \<in> set ds. dict_get (embed ds) (fst kc) = Inr (map cand_val (snd kc))"
    using assms by (auto intro: dict_get_embed)
  with extract_keys_typed[of ds "embed ds" "[]" cvt img] assms
  show ?thesis by (simp add: extract_image_segments_def keys split: sum.splits)
qed

lemma take_drop_upt:
  assumes "e \<le> length xs"
  shows "take (e - s) (drop s xs) = map (\<lambda>i. xs ! i) [s ..< e]"
proof (rule nth_equalityI)
  show "length (take (e - s) (drop s xs)) = length (map (\<lambda>i. xs ! i) [s ..< e])"
    using assms by auto
next
  fix i assume "i < length (take (e - s) (drop s xs))"
  then have i: "s + i < e" by auto
  then have "[s ..< e] ! i = s + i" by (rule nth_upt)
  moreover have "i < e - s" using i by arith
  moreover have "s \<le> length xs" using i assms by arith
  ultimately show "take (e - s) (drop s xs) ! i = map (\<lambda>i. xs ! i) [s ..< e] ! i"
    by (simp del: upt_Suc)
qed

lemma py_slice_nonneg:
  assumes "0 \<le> a" and "0 \<le> b"
  shows "py_slice a b xs = map (\<lambda>i. xs ! i) [clamp_bound (length xs) a ..< clamp_bound (length xs) b]"
  using assms take_drop_upt[of "min (nat b) (length xs)" xs "min (nat a) (length xs)"]
  by (simp add: py_slice_def slice_bound_def clamp_bound_def)

lemma slice_bound_wrap:
  "slice_bound n (if i < 0 then max 0 (i + int n) else i) = slice_bound n i"
  by (cases "i < 0"; cases "0 \<le> i + int n") (simp_all add: slice_bound_def max_def)

lemma py_slice_negative:
  "py_slice a b xs =
     py_slice (if a < 0 then max 0 (a + int (length xs)) else a)
              (if b < 0 then max 0 (b + int (length xs)) else b) xs"
  unfolding py_slice_def slice_bound_wrap ..

lemma comprehension_total: "comprehension (\<lambda>x. Inr (f x)) xs = Inr (map f xs)"
  by (induction xs) auto

lemma crop_nonneg:
  assumes "0 \<le> x0" "0 \<le> x1" "0 \<le> y0" "0 \<le> y1"
  shows "crop_box img (x0, x1, y0, y1) = spec_crop img (x0, x1, y0, y1)"
proof -
  have "map (py_slice x0 x1) (map (\<lambda>i. img ! i) [s ..< e]) =
        map (\<lambda>r. map (\<lambda>c. img ! r ! c)
               [clamp_bound (length (img ! r)) x0 ..< clamp_bound (length (img ! r)) x1]) [s ..< e]"
    for s e
    using assms by (simp add: py_slice_nonneg)
  then show ?thesis using assms by (simp add: crop_def spec_crop_def py_slice_nonneg)
qed

lemma category_segments_total:
  "comprehension (category_segments (\<lambda>s. Inr (g s)) img) ds =
     Inr (map (\<lambda>kc. (fst kc, map (\<lambda>c. g (crop_box img (fst c))) (snd kc))) ds)"
  by (induction ds) (simp_all add: category_segments_def comprehension_total)

lemma concat_map_nonempty:
  "xs \<noteq> [] \<Longrightarrow> \<forall>x \<in> set xs. f x \<noteq> [] \<Longrightarrow> concat (map f xs) \<noteq> []"
  by (cases xs) auto

text \<open>
  Claim C3 says that a box partly outside the image is cropped to its intersection with
  the image, each axis clamped to the range from 0 to the dimension, that box
  (-5, 20, -5, 20) on a 100 by 100 image gives the 20 by 20 region at (0, 20, 0, 20),
  and that no box causes a fault. The code slices
  \<^verbatim>\<open>image[zone[2]:zone[3], zone[0]:zone[1]]\<close> and has no clamp of its own: the bound -5
  counts from the far edge, the rows are \<^verbatim>\<open>95:20\<close> and the slice has no pixel, while the
  clamped region has 20 rows of 20 pixels. The empty slice goes to \<^verbatim>\<open>cv2.cvtColor\<close>, which
  raises on it, so the call fails instead of returning a segment.
\<close>

theorem negative_box_is_not_clamped:
  "crop_box img100 (-5, 20, -5, 20) = [] \<and>
   extract_image_segments bgr2rgb img100 (embed [(HEAD, [((-5, 20, -5, 20), 9/10)])]) =
     Inl LibraryError \<and>
   spec_crop img100 (-5, 20, -5, 20) = map (\<lambda>r. map (\<lambda>c. (r, c, 0)) [0..<20]) [0..<20] \<and>
   extract_image_segments bgr2rgb img100 (embed [(HEAD, [((0, 20, 0, 20), 9/10)])]) =
     Inr [(HEAD, [map (\<lambda>r. map (\<lambda>c. (0, c, r)) [0..<20]) [0..<20]])]"
proof -
  have e: "crop_box img100 (-5, 20, -5, 20) = []"
    by (simp add: crop_def py_slice_def slice_bound_def img100_def)
  have a: "extract_image_segments bgr2rgb img100 (embed [(HEAD, [((-5, 20, -5, 20), 9/10)])]) =
     Inl LibraryError"
    by (simp add: extract_image_segments_typed category_segments_def e bgr2rgb_def
        del: crop_box.simps)
  have b: "spec_crop img100 (-5, 20, -5, 20) = map (\<lambda>r. map (\<lambda>c. (r, c, 0)) [0..<20]) [0..<20]"
    by (simp add: spec_crop_def clamp_bound_def img100_def del: upt_Suc)
  have n: "concat (map (\<lambda>r. map (\<lambda>c. (r, c, 0::nat)) [0..<20::nat]) [0..<20::nat]) \<noteq> []"
    by (rule concat_map_nonempty) (simp_all del: upt_Suc)
  have c: "crop_box img100 (0, 20, 0, 20) = map (\<lambda>r. map (\<lambda>c. (r, c, 0)) [0..<20]) [0..<20]"
    by (simp add: crop_def py_slice_def slice_bound_def img100_def take_map del: upt_Suc)
  have d: "extract_image_segments bgr2rgb img100 (embed [(HEAD, [((0, 20, 0, 20), 9/10)])]) =
     Inr [(HEAD, [map (\<lambda>r. map (\<lambda>c. (0, c, r)) [0..<20]) [0..<20]])]"
    using n
    by (simp add: extract_image_segments_typed category_segments_def c bgr2rgb_def comp_def
        del: crop_box.simps upt_Suc)
  from e a b d show ?thesis by (intro conjI)
qed

text \<open>
  Claim C3 as amended. For a Detection set of the annotated shape with distinct keys,
  the Extractor keeps the categories and their order and gives each candidate the
  colour conversion of the slice \<^verbatim>\<open>image[y0:y1, x0:x1]\<close> of its box; it fails only where
  the conversion fails, as \<^verbatim>\<open>cv2.cvtColor\<close> does on a slice without pixels, and with a
  conversion that always succeeds it returns one segment per candidate. The slice
  follows the rule of Python: a box without a
  negative coordinate yields its intersection with the image (a bound beyond the
  dimension is cut to it), and a negative bound stands for the bound plus the length of
  the axis, or 0 when that is still negative.
\<close>

theorem extractor_slices_by_python_rule:
  assumes "distinct (map fst ds)"
  shows "extract_image_segments cvt img (embed ds) = comprehension (category_segments cvt img) ds \<and>
     extract_image_segments (\<lambda>s. Inr (g s)) img (embed ds) =
       Inr (map (\<lambda>kc. (fst kc, map (\<lambda>c. g (crop_box img (fst c))) (snd kc))) ds) \<and>
     (0 \<le> x0 \<and> 0 \<le> x1 \<and> 0 \<le> y0 \<and> 0 \<le> y1 \<longrightarrow>
        crop_box img (x0, x1, y0, y1) = spec_crop img (x0, x1, y0, y1)) \<and>
     crop_box img (x0, x1, y0, y1) =
       map (\<lambda>row. py_slice (if x0 < 0 then max 0 (x0 + int (length row)) else x0)
                            (if x1 < 0 then max 0 (x1 + int (length row)) else x1) row)
           (py_slice (if y0 < 0 then max 0 (y0 + int (length img)) else y0)
                     (if y1 < 0 then max 0 (y1 + int (length img)) else y1) img)"
proof -
  have e1: "extract_image_segments cvt img (embed ds) =
       comprehension (category_segments cvt img) ds"
    by (rule extract_image_segments_typed[OF assms])
  have e2: "extract_image_segments (\<lambda>s. Inr (g s)) img (embed ds) =
       Inr (map (\<lambda>kc. (fst kc, map (\<lambda>c. g (crop_box img (fst c))) (snd kc))) ds)"
    by (simp only: extract_image_segments_typed[OF assms] category_segments_total)
  have e3: "0 \<le> x0 \<and> 0 \<le> x1 \<and> 0 \<le> y0 \<and> 0 \<le> y1 \<longrightarrow>
        crop_box img (x0, x1, y0, y1) = spec_crop img (x0, x1, y0, y1)"
    using crop_nonneg[of x0 x1 y0 y1 img] by blast
  have e4: "crop_box img (x0, x1, y0, y1) =
       map (\<lambda>row. py_slice (if x0 < 0 then max 0 (x0 + int (length row)) else x0)
                            (if x1 < 0 then max 0 (x1 + int (length row)) else x1) row)
           (py_slice (if y0 < 0 then max 0 (y0 + int (length img)) else y0)
                     (if y1 < 0 then max 0 (y1 + int (length img)) else y1) img)"
    unfolding crop_box.simps crop_def py_slice_def slice_bound_wrap ..
  from e1 e2 e3 e4 show ?thesis by (intro conjI)
qed

theorem extractor_slices_by_python_rule_witness:
  "distinct (map fst ([(HEAD, [((90, 120, 95, 200), 9/10)])] :: (IDs \<times> candidate list) list)) \<and>
   (0::int) \<le> 90 \<and> (0::int) \<le> 120 \<and> (0::int) \<le> 95 \<and> (0::int) \<le> 200 \<and>
   extract_image_segments bgr2rgb img100 (embed [(HEAD, [((90, 120, 95, 200), 9/10)])]) =
     Inr [(HEAD, [map (\<lambda>r. map (\<lambda>c. (0, c, r)) [90..<100]) [95..<100]])] \<and>
   crop_box img100 (90, 120, 95, 200) = map (\<lambda>r. map (\<lambda>c. (r, c, 0)) [90..<100]) [95..<100]"
proof -
  have d: "distinct (map fst ([(HEAD, [((90, 120, 95, 200), 9/10)])] :: (IDs \<times> candidate list) list))"
    by simp
  note t = extractor_slices_by_python_rule[OF d, of bgr2rgb img100 _ 90 120 95 200]
  have s: "spec_crop img100 (90, 120, 95, 200) =
      map (\<lambda>r. map (\<lambda>c. (r, c, 0)) [90..<100]) [95..<100]"
    by (simp add: spec_crop_def clamp_bound_def img100_def del: upt_Suc)
  have c: "crop_box img100 (90, 120, 95, 200) =
      map (\<lambda>r. map (\<lambda>c. (r, c, 0)) [90..<100]) [95..<100]"
    using t s by simp
  have "extract_image_segments bgr2rgb img100 (embed [(HEAD, [((90, 120, 95, 200), 9/10)])]) =
      comprehension (category_segments bgr2rgb img100) [(HEAD, [((90, 120, 95, 200), 9/10)])]"
    using t by blast
  moreover have "concat (map (\<lambda>r. map (\<lambda>c. (r, c, 0::nat)) [90..<100::nat]) [95..<100::nat]) \<noteq> []"
    by (rule concat_map_nonempty) (simp_all del: upt_Suc)
  ultimately have "extract_image_segments bgr2rgb img100
      (embed [(HEAD, [((90, 120, 95, 200), 9/10)])]) =
     Inr [(HEAD, [map (\<lambda>r. map (\<lambda>c. (0, c, r)) [90..<100]) [95..<100]])]"
    by (simp add: category_segments_def c bgr2rgb_def comp_def del: crop_box.simps upt_Suc)
  with d c show ?thesis by simp
qed

section \<open>Properties of the Suppressor\<close>

lemma comprehension_item0:
  "comprehension (\<lambda>x. subscript x 0) (map cand_val cs) = Inr (map (\<lambda>c. box_val (fst c)) cs)"
  by (induction cs) (auto simp: tuple_item_def)

lemma comprehension_item1:
  "comprehension (\<lambda>x. subscript x 1) (map cand_val cs) = Inr (map (\<lambda>c. PFloat (snd c)) cs)"
  by (induction cs) (auto simp: tuple_item_def)

lemma comprehension_list_at_map:
  "comprehension (list_at (map f xs)) idx =
     (case comprehension (list_at xs) idx of Inl e \<Rightarrow> Inl e | Inr ys \<Rightarrow> Inr (map f ys))"
  by (induction idx) (auto simp: list_at_def split: sum.splits)

lemma comprehension_list_at_in_range:
  "\<forall>i \<in> set idx. i < length xs \<Longrightarrow> comprehension (list_at xs) idx = Inr (map (\<lambda>i. xs ! i) idx)"
  by (induction idx) (auto simp: list_at_def)


lemma suppress_row_typed:
  assumes "dict_get dp k = Inr (map cand_val cs)"
  shows "suppress_row nms nms_threshold score_threshold k dp =
     (case category_kept nms nms_threshold score_threshold (k, cs) of
        Inl e \<Rightarrow> Inl e
      | Inr kc \<Rightarrow> Inr (dict_set k (map cand_val (snd kc)) dp))"
  using assms
  by (simp add: suppress_row_def category_kept_def comprehension_item0 comprehension_item1
      comprehension_list_at_map split: sum.splits)

lemma embed_append: "embed (a @ b) = embed a @ embed b"
  by (simp add: embed_def)

lemma embed_Cons: "embed ((k, cs) # ds) = (k, map cand_val cs) # embed ds"
  by (simp add: embed_def)

lemma dict_has_embed: "dict_has (embed ds) k \<longleftrightarrow> k \<in> fst ` set ds"
  by (induction ds) (auto simp: embed_def)

lemma dict_get_skip: "\<not> dict_has d1 k \<Longrightarrow> dict_get (d1 @ d2) k = dict_get d2 k"
  by (induction d1) auto

lemma dict_set_skip: "\<not> dict_has d1 k \<Longrightarrow> dict_set k v (d1 @ d2) = d1 @ dict_set k v d2"
  by (induction d1) auto

lemma suppress_rows_typed:
  assumes "distinct (map fst ds)" and "\<forall>kc \<in> set ds. fst kc \<notin> fst ` set done"
  shows "suppress_rows nms nms_threshold score_threshold (map fst ds) (embed (done @ ds)) =
     (case comprehension (category_kept nms nms_threshold score_threshold) ds of
        Inl e \<Rightarrow> Inl e
      | Inr ds' \<Rightarrow> Inr (embed (done @ ds')))"
  using assms
proof (induction ds arbitrary: "done")
  case Nil
  then show ?case by simp
next
  case (Cons kc ds)
  obtain k cs where kc: "kc = (k, cs)" by (cases kc)
  have absent: "\<not> dict_has (embed done) k"
    using Cons.prems(2) by (simp add: kc dict_has_embed)
  have get: "dict_get (embed (done @ (k, cs) # ds)) k = Inr (map cand_val cs)"
    using absent by (simp add: embed_append embed_Cons dict_get_skip)
  note row = suppress_row_typed[OF get, of nms nms_threshold score_threshold]
  show ?case
  proof (cases "category_kept nms nms_threshold score_threshold (k, cs)")
    case (Inl e)
    then show ?thesis using row by (simp add: kc)
  next
    case (Inr kc')
    then have fst': "fst kc' = k"
      by (auto simp: category_kept_def split: sum.splits)
    have set: "dict_set k (map cand_val (snd kc')) (embed (done @ (k, cs) # ds)) =
        embed ((done @ [kc']) @ ds)"
      using absent fst'[symmetric]
      by (cases kc') (simp add: embed_append embed_Cons dict_set_skip embed_def)
    have "\<forall>kc \<in> set ds. fst kc \<notin> fst ` set (done @ [kc'])"
      using Cons.prems by (auto simp: kc fst')
    with Cons.IH[of "done @ [kc']"] Cons.prems(1)
    have "suppress_rows nms nms_threshold score_threshold (map fst ds) (embed ((done @ [kc']) @ ds)) =
      (case comprehension (category_kept nms nms_threshold score_threshold) ds of
         Inl e \<Rightarrow> Inl e | Inr ds' \<Rightarrow> Inr (embed ((done @ [kc']) @ ds')))"
      by simp
    then show ?thesis
      using row Inr set by (simp add: kc split: sum.splits)
  qed
qed

lemma remove_overlapping_items_typed:
  assumes "distinct (map fst ds)"
  shows "remove_overlapping_items nms (embed ds) nms_threshold score_threshold =
     (case comprehension (category_kept nms nms_threshold score_threshold) ds of
        Inl e \<Rightarrow> Inl e
      | Inr ds' \<Rightarrow> Inr (embed ds'))"
proof -
  have keys: "map fst (embed ds) = map fst ds"
    by (simp add: embed_def case_prod_unfold comp_def)
  show ?thesis
    using suppress_rows_typed[OF assms, of "[]" nms nms_threshold score_threshold]
    by (simp add: remove_overlapping_items_def keys cong: sum.case_cong)
qed

section \<open>Properties of the suppression routine\<close>

lemma greedy_nms_subset: "set (greedy_nms bx t xs) \<subseteq> set xs"
  by (induction bx t xs rule: greedy_nms.induct) auto

lemma greedy_nms_filter_id:
  "filter (\<lambda>d. \<not> t < iou (bx c) (bx d))
     (greedy_nms bx t (filter (\<lambda>d. \<not> t < iou (bx c) (bx d)) cs)) =
   greedy_nms bx t (filter (\<lambda>d. \<not> t < iou (bx c) (bx d)) cs)"
proof -
  have "set (greedy_nms bx t (filter (\<lambda>d. \<not> t < iou (bx c) (bx d)) cs)) \<subseteq>
      set (filter (\<lambda>d. \<not> t < iou (bx c) (bx d)) cs)"
    by (rule greedy_nms_subset)
  then show ?thesis by (auto simp: filter_id_conv)
qed

lemma greedy_nms_idem: "greedy_nms bx t (greedy_nms bx t xs) = greedy_nms bx t xs"
proof (induction xs rule: length_induct)
  case (1 xs)
  show ?case
  proof (cases xs)
    case Nil
    then show ?thesis by simp
  next
    case (Cons c cs)
    let ?F = "filter (\<lambda>d. \<not> t < iou (bx c) (bx d)) cs"
    have "length ?F < length xs" by (simp add: Cons less_Suc_eq_le)
    with 1 have ih: "greedy_nms bx t (greedy_nms bx t ?F) = greedy_nms bx t ?F" by blast
    show ?thesis
      unfolding Cons greedy_nms.simps(2) greedy_nms_filter_id ih ..
  qed
qed

lemma greedy_nms_sorted:
  "sorted (map f xs) \<Longrightarrow> sorted (map f (greedy_nms bx t xs))"
proof (induction bx t xs rule: greedy_nms.induct)
  case (1 bx t)
  then show ?case by simp
next
  case (2 bx t c cs)
  let ?F = "filter (\<lambda>d. \<not> t < iou (bx c) (bx d)) cs"
  from "2.prems" have c: "\<forall>d \<in> set cs. f c \<le> f d" and s: "sorted (map f cs)"
    by auto
  from s have "sorted (map f ?F)" by (rule sorted_filter)
  then have "sorted (map f (greedy_nms bx t ?F))" by (rule "2.IH")
  moreover have "\<forall>d \<in> set (greedy_nms bx t ?F). f c \<le> f d"
    using greedy_nms_subset[of bx t ?F] c by auto
  ultimately show ?case by simp
qed


lemma nms_select_subset:
  "set (nms_select bx sc st t xs) \<subseteq> {x \<in> set xs. st \<le> sc x}"
  using greedy_nms_subset[of bx t "sort_key (\<lambda>x. - sc x) (filter (\<lambda>x. st \<le> sc x) xs)"]
  by (auto simp: nms_select_def)

lemma nms_select_idem:
  "nms_select bx sc st t (nms_select bx sc st t xs) = nms_select bx sc st t xs"
proof -
  let ?S = "sort_key (\<lambda>x. - sc x) (filter (\<lambda>x. st \<le> sc x) xs)"
  let ?G = "greedy_nms bx t ?S"
  have f: "filter (\<lambda>x. st \<le> sc x) ?G = ?G"
    using nms_select_subset[of bx sc st t xs] by (auto simp: filter_id_conv nms_select_def)
  have "sorted (map (\<lambda>x. - sc x) ?G)"
    by (rule greedy_nms_sorted) simp
  then have s: "sort_key (\<lambda>x. - sc x) ?G = ?G" by (rule sort_key_id_if_sorted)
  show ?thesis by (simp add: nms_select_def f s greedy_nms_idem)
qed

lemma insort_key_map:
  "map g (insort_key (\<lambda>x. f (g x)) x xs) = insort_key f (g x) (map g xs)"
  by (induction xs) auto

lemma sort_key_map:
  "map g (sort_key (\<lambda>x. f (g x)) xs) = sort_key f (map g xs)"
  by (induction xs) (auto simp: insort_key_map)

lemma greedy_nms_map:
  "map g (greedy_nms (\<lambda>x. bx (g x)) t xs) = greedy_nms bx t (map g xs)"
  by (induction "\<lambda>x. bx (g x)" t xs rule: greedy_nms.induct) (auto simp: filter_map comp_def)

lemma nms_select_map:
  "map g (nms_select (\<lambda>x. bx (g x)) (\<lambda>x. sc (g x)) st t xs) = nms_select bx sc st t (map g xs)"
  using sort_key_map[of g "\<lambda>x. - sc x" "filter (\<lambda>x. st \<le> sc (g x)) xs"]
  by (simp add: nms_select_def greedy_nms_map filter_map comp_def)


lemma comprehension_as_box:
  "comprehension as_box (map (\<lambda>c. box_val (fst c)) cs) = Inr (map fst cs)"
  by (induction cs) auto

lemma comprehension_as_score:
  "comprehension as_score (map (\<lambda>c. PFloat (snd c)) cs) = Inr (map snd cs)"
  by (induction cs) auto

lemma NMSBoxes_typed:
  "NMSBoxes (map (\<lambda>c. box_val (fst c)) cs) (map (\<lambda>c. PFloat (snd c)) cs) st t =
     Inr (map fst (nms_select (\<lambda>(i, b, s). b) (\<lambda>(i, b, s). s) st t (zip [0..<length cs] cs)))"
  by (simp add: NMSBoxes_def comprehension_as_box comprehension_as_score zip_map_fst_snd)


lemma enumerate_select:
  assumes "set sel \<subseteq> set (zip [0..<length cs] cs)"
  shows "(\<forall>i \<in> set (map fst sel). i < length cs) \<and> map (\<lambda>i. cs ! i) (map fst sel) = map snd sel"
  using assms
proof (induction sel)
  case Nil
  then show ?case by simp
next
  case (Cons p sel)
  then have "p \<in> set (zip [0..<length cs] cs)" by simp
  then have "fst p < length cs \<and> cs ! fst p = snd p"
    by (auto simp: in_set_zip)
  with Cons show ?case by simp
qed

lemma category_kept_NMSBoxes:
  "category_kept NMSBoxes t st (k, cs) = Inr (k, nms_select fst snd st t cs)"
proof -
  let ?sel = "nms_select (\<lambda>(i, b, s). b) (\<lambda>(i, b, s). s) st t (zip [0..<length cs] cs)"
  have "set ?sel \<subseteq> set (zip [0..<length cs] cs)"
    using nms_select_subset[of "\<lambda>(i, b, s). b" "\<lambda>(i, b, s). s" st t "zip [0..<length cs] cs"]
    by auto
  from enumerate_select[OF this]
  have r: "\<forall>i \<in> set (map fst ?sel). i < length cs"
    and m: "map (\<lambda>i. cs ! i) (map fst ?sel) = map snd ?sel" by blast+
  have "map snd ?sel = nms_select fst snd st t (map snd (zip [0..<length cs] cs))"
    using nms_select_map[of snd fst snd st t "zip [0..<length cs] cs"]
    by (simp add: case_prod_unfold)
  then have "map snd ?sel = nms_select fst snd st t cs" by simp
  with m comprehension_list_at_in_range[OF r]
  show ?thesis by (simp add: category_kept_def NMSBoxes_typed)
qed

lemma comprehension_category_kept_NMSBoxes:
  "comprehension (category_kept NMSBoxes t st) ds =
     Inr (map (\<lambda>kc. (fst kc, nms_select fst snd st t (snd kc))) ds)"
  by (induction ds) (auto simp: category_kept_NMSBoxes)

lemma remove_overlapping_items_NMSBoxes:
  assumes "distinct (map fst ds)"
  shows "remove_overlapping_items NMSBoxes (embed ds) t st =
     Inr (embed (map (\<lambda>kc. (fst kc, nms_select fst snd st t (snd kc))) ds))"
  by (simp add: remove_overlapping_items_typed[OF assms] comprehension_category_kept_NMSBoxes)

section \<open>The claims about the Suppressor\<close>



lemma comprehension_failure:
  "comprehension f xs = Inl e \<Longrightarrow> \<exists>x \<in> set xs. f x = Inl e"
  by (induction xs) (auto split: sum.splits)





text \<open>
  Claim C8 says that the Suppressor fails with InvalidThreshold when a threshold lies
  outside the range from 0 to 1. The code has no check of the thresholds and no such
  error. With the overlap threshold 5 and the score threshold -3, a Detection set
  without categories comes back empty even under a routine that rejects every call,
  since the routine is never called; and with the thresholds 5 and 2 the routine of the
  specification runs and leaves the category with an empty list.
\<close>

theorem thresholds_outside_unit_interval_accepted:
  "remove_overlapping_items (\<lambda>bboxes scores st t. Inl LibraryError)
     ([] :: (IDs, pyval) datapack) 5 (- 3) = Inr [] \<and>
   remove_overlapping_items NMSBoxes
     (embed [(HEAD, [((10, 50, 10, 50), 9/10)])]) 5 2 = Inr (embed [(HEAD, [])])"
  by (simp add: remove_overlapping_items_def remove_overlapping_items_NMSBoxes[simplified remove_overlapping_items_def]
      nms_select_def)

text \<open>
  Claim C8 as amended: the Suppressor does not validate the thresholds. It passes both
  unchanged to the suppression routine, once per category. On a Detection set without
  categories it returns the empty set whatever the thresholds are; on a Detection set
  of the annotated shape with distinct keys its outcome is that of the categories in
  turn, so when it fails it fails with the error of the routine's call for some
  category (or of an index the routine returned out of range).
\<close>

theorem suppressor_passes_thresholds_on:
  "remove_overlapping_items nms [] nms_threshold score_threshold = Inr [] \<and>
   (distinct (map fst ds) \<longrightarrow>
      remove_overlapping_items nms (embed ds) nms_threshold score_threshold =
        (case comprehension (category_kept nms nms_threshold score_threshold) ds of
           Inl e \<Rightarrow> Inl e
         | Inr ds' \<Rightarrow> Inr (embed ds'))) \<and>
   (distinct (map fst ds) \<and>
    remove_overlapping_items nms (embed ds) nms_threshold score_threshold = Inl e \<longrightarrow>
      (\<exists>kc \<in> set ds. category_kept nms nms_threshold score_threshold kc = Inl e))"
proof -
  have a: "remove_overlapping_items nms [] nms_threshold score_threshold = Inr []"
    by (simp add: remove_overlapping_items_def)
  have b: "distinct (map fst ds) \<longrightarrow>
      remove_overlapping_items nms (embed ds) nms_threshold score_threshold =
        (case comprehension (category_kept nms nms_threshold score_threshold) ds of
           Inl e \<Rightarrow> Inl e
         | Inr ds' \<Rightarrow> Inr (embed ds'))"
    using remove_overlapping_items_typed by blast
  have c: "distinct (map fst ds) \<and>
    remove_overlapping_items nms (embed ds) nms_threshold score_threshold = Inl e \<longrightarrow>
      (\<exists>kc \<in> set ds. category_kept nms nms_threshold score_threshold kc = Inl e)"
  proof
    assume h: "distinct (map fst ds) \<and>
      remove_overlapping_items nms (embed ds) nms_threshold score_threshold = Inl e"
    with b have "comprehension (category_kept nms nms_threshold score_threshold) ds = Inl e"
      by (auto split: sum.splits)
    then show "\<exists>kc \<in> set ds. category_kept nms nms_threshold score_threshold kc = Inl e"
      by (rule comprehension_failure)
  qed
  from a b c show ?thesis by (intro conjI)
qed

theorem suppressor_passes_thresholds_on_witness:
  "distinct (map fst ([(HEAD, [((10, 50, 10, 50), 9/10)])] :: (IDs \<times> candidate list) list)) \<and>
   remove_overlapping_items (\<lambda>bboxes scores st t. Inl LibraryError)
     (embed [(HEAD, [((10, 50, 10, 50), 9/10)])]) 5 2 = Inl LibraryError \<and>
   (\<exists>kc \<in> set [(HEAD, [((10, 50, 10, 50), 9/10)])].
      category_kept (\<lambda>bboxes scores st t. Inl LibraryError) 5 2 kc = Inl LibraryError)"
proof -
  let ?ds = "[(HEAD, [((10, 50, 10, 50), 9/10)])] :: (IDs \<times> candidate list) list"
  let ?nms = "\<lambda>bboxes scores st t. Inl LibraryError :: error + nat list"
  note t = suppressor_passes_thresholds_on[of ?nms 5 2 ?ds LibraryError]
  have d: "distinct (map fst ?ds)" by simp
  have "remove_overlapping_items ?nms (embed ?ds) 5 2 =
        (case comprehension (category_kept ?nms 5 2) ?ds of
           Inl e \<Rightarrow> Inl e | Inr ds' \<Rightarrow> Inr (embed ds'))"
    using t d by blast
  then have r: "remove_overlapping_items ?nms (embed ?ds) 5 2 = Inl LibraryError"
    by (simp add: category_kept_def)
  with t d have "\<exists>kc \<in> set ?ds. category_kept ?nms 5 2 kc = Inl LibraryError" by blast
  with d r show ?thesis by blast
qed

text \<open>
  Claim C9: the Suppressor is idempotent. With the suppression routine of the
  specification, on a Detection set of the annotated shape with distinct keys, the
  first call returns the Detection set in which each category holds the selection of
  the routine, and a second call with the same thresholds returns that set unchanged.
  This holds for all thresholds, those between 0 and 1 among them.
\<close>

theorem suppressor_idempotent:
  assumes "distinct (map fst ds)"
  shows "\<exists>ds'. ds' = map (\<lambda>kc. (fst kc, nms_select fst snd score_threshold nms_threshold (snd kc))) ds \<and>
     remove_overlapping_items NMSBoxes (embed ds) nms_threshold score_threshold = Inr (embed ds') \<and>
     remove_overlapping_items NMSBoxes (embed ds') nms_threshold score_threshold = Inr (embed ds')"
proof -
  let ?f = "\<lambda>kc :: 'a \<times> candidate list.
    (fst kc, nms_select fst snd score_threshold nms_threshold (snd kc))"
  have k: "map fst (map ?f ds) = map fst ds" by (simp add: comp_def)
  have d: "distinct (map fst (map ?f ds))" unfolding k by (rule assms)
  have i: "map ?f (map ?f ds) = map ?f ds" by (simp add: nms_select_idem)
  have "remove_overlapping_items NMSBoxes (embed (map ?f ds)) nms_threshold score_threshold =
      Inr (embed (map ?f (map ?f ds)))"
    by (rule remove_overlapping_items_NMSBoxes[OF d])
  then have "remove_overlapping_items NMSBoxes (embed (map ?f ds)) nms_threshold score_threshold =
      Inr (embed (map ?f ds))"
    by (simp only: i)
  with remove_overlapping_items_NMSBoxes[OF assms, of nms_threshold score_threshold]
  show ?thesis by blast
qed

theorem suppressor_idempotent_witness:
  "distinct (map fst ([(HEAD, [((12, 52, 12, 52), 8/10), ((10, 50, 10, 50), 9/10),
                              ((60, 70, 60, 70), 6/10), ((60, 70, 60, 70), 4/10)]),
                       (ARMS, [])] :: (IDs \<times> candidate list) list)) \<and>
   remove_overlapping_items NMSBoxes
     (embed [(HEAD, [((12, 52, 12, 52), 8/10), ((10, 50, 10, 50), 9/10),
                     ((60, 70, 60, 70), 6/10), ((60, 70, 60, 70), 4/10)]), (ARMS, [])])
     (3/10) (1/2) =
     Inr (embed [(HEAD, [((10, 50, 10, 50), 9/10), ((60, 70, 60, 70), 6/10)]), (ARMS, [])]) \<and>
   remove_overlapping_items NMSBoxes
     (embed [(HEAD, [((10, 50, 10, 50), 9/10), ((60, 70, 60, 70), 6/10)]), (ARMS, [])])
     (3/10) (1/2) =
     Inr (embed [(HEAD, [((10, 50, 10, 50), 9/10), ((60, 70, 60, 70), 6/10)]), (ARMS, [])])"
proof -
  let ?ds = "[(HEAD, [((12, 52, 12, 52), 8/10), ((10, 50, 10, 50), 9/10),
                      ((60, 70, 60, 70), 6/10), ((60, 70, 60, 70), 4/10)]),
              (ARMS, [])] :: (IDs \<times> candidate list) list"
  have d: "distinct (map fst ?ds)" by simp
  have m: "map (\<lambda>kc. (fst kc, nms_select fst snd (1/2) (3/10) (snd kc))) ?ds =
      [(HEAD, [((10, 50, 10, 50), 9/10), ((60, 70, 60, 70), 6/10)]), (ARMS, [])]"
    by (simp add: nms_select_def iou_def)
  from suppressor_idempotent[OF d, of "1/2" "3/10"] d show ?thesis
    unfolding m by blast
qed

end
